theory Spec2Isabelle
  imports
    Main
    "HOL-Library.Word"
    "HOL-Library.Char_ord"
    "HOL-Library.List_Lexorder"
    "HOL-Library.Option_ord"
    "HOL-Library.Product_Lexorder"
begin

unbundle bit_operations_syntax

section \<open>Data model of \<^verbatim>\<open>prefect/core/flow.py\<close>\<close>

text \<open>
  A task is a Python object: two tasks are the same member of a set when they are the same
  object, so a task carries its identity \<open>tid\<close> next to the attributes the flow reads:
  \<^item> \<open>slug\<close>: \<^verbatim>\<open>task.slug\<close>, a string or \<^verbatim>\<open>None\<close>;
  \<^item> \<open>is_parameter\<close>: \<^verbatim>\<open>isinstance(task, Parameter)\<close>;
  \<^item> \<open>info\<close>: what \<^verbatim>\<open>prefect.core.task.get_task_info(task)\<close> returns (the payload
    that \<^verbatim>\<open>get_hash\<close> pickles);
  \<^item> \<open>kw_params\<close>, \<open>var_keyword\<close>, \<open>var_positional\<close>: what
    \<^verbatim>\<open>inspect.signature(task.run)\<close> declares: the names that accept a keyword
    argument, whether there is a \<^verbatim>\<open>**kwargs\<close>, whether there is a \<^verbatim>\<open>*args\<close>.
  A Python \<^verbatim>\<open>str\<close> is modelled by \<open>string\<close>.
\<close>

record task =
  tid :: nat
  slug :: "string option"
  is_parameter :: bool
  info :: string
  kw_params :: "string list"
  var_keyword :: bool
  var_positional :: bool

text \<open>\<^verbatim>\<open>Edge(upstream_task, downstream_task, key)\<close>: plain data, equal by its three fields.\<close>

record edge =
  upstream_task :: task
  downstream_task :: task
  key :: "string option"

text \<open>
  A Python \<^verbatim>\<open>set\<close> is modelled by the list of its members in iteration order, each
  member once; \<^verbatim>\<open>s.add(x)\<close> is \<open>set_add\<close>. Python fixes no iteration order, so the
  theorems below are stated for every list.
\<close>

definition set_add :: "'a \<Rightarrow> 'a list \<Rightarrow> 'a list" where
  "set_add x xs = (if x \<in> set xs then xs else xs @ [x])"

text \<open>The fields of \<^verbatim>\<open>Flow\<close> that the graph operations and the identifiers read.\<close>

record flow =
  name :: string
  version :: "string option"
  tasks :: "task list"
  edges :: "edge list"

text \<open>\<^verbatim>\<open>TaskResult(task, flow)\<close>: a task together with the flow it was built in.\<close>

record task_result =
  tr_task :: task
  tr_flow :: flow

text \<open>
  The exceptions the code raises, one constructor per raise site:
  \<^item> \<open>NotATask\<close>: the \<^verbatim>\<open>TypeError\<close> of \<^verbatim>\<open>add_task\<close>;
  \<^item> \<open>DuplicateSlug\<close>: the \<^verbatim>\<open>ValueError\<close> of \<^verbatim>\<open>add_task\<close>;
  \<^item> \<open>ParameterDownstream\<close>, \<open>DuplicateKey\<close>: the two \<^verbatim>\<open>ValueError\<close>s of \<^verbatim>\<open>add_edge\<close>;
  \<^item> \<open>SignatureBind\<close>: the \<^verbatim>\<open>TypeError\<close> of \<^verbatim>\<open>Signature.bind_partial\<close>;
  \<^item> \<open>VarArgsUnsupported\<close>: the \<^verbatim>\<open>ValueError\<close> of \<^verbatim>\<open>set_dependencies\<close>;
  \<^item> \<open>CyclicGraph\<close>: the \<^verbatim>\<open>ValueError\<close> of \<^verbatim>\<open>sorted_tasks\<close>;
  \<^item> \<open>KeyError\<close>: a dictionary lookup of a missing key;
  \<^item> \<open>CompareTypeError\<close>: the \<^verbatim>\<open>TypeError\<close> of comparing \<^verbatim>\<open>None\<close> with a \<^verbatim>\<open>str\<close>;
  \<^item> \<open>BadUUID\<close>: the \<^verbatim>\<open>ValueError\<close> of \<^verbatim>\<open>uuid.UUID\<close>;
  \<^item> \<open>NotInList\<close>: the \<^verbatim>\<open>ValueError\<close> of \<^verbatim>\<open>list.remove\<close>.
\<close>

datatype error =
    NotATask
  | DuplicateSlug
  | ParameterDownstream
  | DuplicateKey
  | SignatureBind
  | VarArgsUnsupported
  | CyclicGraph
  | KeyError
  | CompareTypeError
  | BadUUID
  | NotInList

text \<open>
  A method that mutates the flow either returns, leaving the flow in a new state, or raises,
  leaving the flow in the state it had reached when the exception left the method.
\<close>

datatype outcome = Done flow | Raise error flow

fun state_of :: "outcome \<Rightarrow> flow" where
  "state_of (Done f) = f"
| "state_of (Raise e f) = f"

text \<open>An argument of \<^verbatim>\<open>add_task\<close>: a \<^verbatim>\<open>Task\<close> instance or any other object.\<close>

datatype pyobj = IsTask task | NotTask

text \<open>Python truthiness of an optional string: \<^verbatim>\<open>None\<close> and \<^verbatim>\<open>""\<close> are false.\<close>

fun truthy :: "string option \<Rightarrow> bool" where
  "truthy None = False"
| "truthy (Some s) = (s \<noteq> [])"

section \<open>Graph builder\<close>

subsection \<open>\<^verbatim>\<open>Flow.add_task\<close>\<close>

definition add_task :: "flow \<Rightarrow> pyobj \<Rightarrow> outcome" where
  "add_task f x =
     (case x of
        NotTask \<Rightarrow> Raise NotATask f
      | IsTask t \<Rightarrow>
          if t \<notin> set (tasks f) \<and> truthy (slug t) \<and> slug t \<in> set (map slug (tasks f))
          then Raise DuplicateSlug f
          else Done (f\<lparr>tasks := set_add t (tasks f)\<rparr>))"

section \<open>Graph index\<close>

text \<open>Sequencing of computations that may raise and do not change the flow.\<close>

fun and_then :: "error + 'a \<Rightarrow> ('a \<Rightarrow> error + 'b) \<Rightarrow> error + 'b" where
  "and_then (Inl e) k = Inl e"
| "and_then (Inr x) k = k x"

text \<open>
  \<^verbatim>\<open>all_upstream_edges\<close> and \<^verbatim>\<open>all_downstream_edges\<close> build a dictionary with one
  empty set per task and file every edge under one endpoint: \<^verbatim>\<open>edges[endpoint].add(edge)\<close>
  raises \<^verbatim>\<open>KeyError\<close> when the endpoint is not a task of the flow. The \<^verbatim>\<open>cache\<close>
  decorator is memoisation and is left out.
\<close>

type_synonym edge_index = "task \<rightharpoonup> edge list"

fun file_edges :: "(edge \<Rightarrow> task) \<Rightarrow> edge list \<Rightarrow> edge_index \<Rightarrow> error + edge_index" where
  "file_edges endpoint [] m = Inr m"
| "file_edges endpoint (e # es) m =
     (case m (endpoint e) of
        None \<Rightarrow> Inl KeyError
      | Some s \<Rightarrow> file_edges endpoint es (m(endpoint e \<mapsto> set_add e s)))"

definition all_upstream_edges :: "flow \<Rightarrow> error + edge_index" where
  "all_upstream_edges f =
     file_edges downstream_task (edges f) (map_of (map (\<lambda>t. (t, [])) (tasks f)))"

definition all_downstream_edges :: "flow \<Rightarrow> error + edge_index" where
  "all_downstream_edges f =
     file_edges upstream_task (edges f) (map_of (map (\<lambda>t. (t, [])) (tasks f)))"

definition lookup :: "('k \<rightharpoonup> 'v) \<Rightarrow> 'k \<Rightarrow> error + 'v" where
  "lookup m k = (case m k of None \<Rightarrow> Inl KeyError | Some v \<Rightarrow> Inr v)"

definition edges_to :: "flow \<Rightarrow> task \<Rightarrow> error + edge list" where
  "edges_to f t = and_then (all_upstream_edges f) (\<lambda>m. lookup m t)"

definition edges_from :: "flow \<Rightarrow> task \<Rightarrow> error + edge list" where
  "edges_from f t = and_then (all_downstream_edges f) (\<lambda>m. lookup m t)"

definition upstream_tasks :: "flow \<Rightarrow> task \<Rightarrow> error + task list" where
  "upstream_tasks f t = and_then (edges_to f t) (\<lambda>es. Inr (remdups (map upstream_task es)))"

definition downstream_tasks :: "flow \<Rightarrow> task \<Rightarrow> error + task list" where
  "downstream_tasks f t =
     and_then (edges_from f t) (\<lambda>es. Inr (remdups (map downstream_task es)))"

section \<open>Topology engine: \<^verbatim>\<open>Flow.sorted_tasks\<close>\<close>

subsection \<open>The tasks under consideration\<close>

text \<open>
  The body of \<^verbatim>\<open>for t in list(tasks.difference(seen))\<close>: the downstream tasks of \<open>t\<close>
  join \<open>tasks\<close>, and \<open>t\<close> joins \<open>seen\<close>.
\<close>

fun visit_new :: "flow \<Rightarrow> task list \<Rightarrow> task list \<times> task list \<Rightarrow> error + task list \<times> task list" where
  "visit_new f [] (ts, seen) = Inr (ts, seen)"
| "visit_new f (t # new) (ts, seen) =
     and_then (downstream_tasks f t)
       (\<lambda>ds. visit_new f new (fold set_add ds ts, set_add t seen))"

lemma file_edges_dom:
  "file_edges endpoint es m0 = Inr m1 \<Longrightarrow> dom m1 = dom m0"
  by (induction es arbitrary: m0) (auto split: option.splits)

lemma dom_empty_index:
  "dom (map_of (map (\<lambda>t. (t, [])) ts)) = set ts"
  by (simp add: dom_map_of_conv_image_fst image_image)

lemma downstream_tasks_member:
  assumes "downstream_tasks f t = Inr ds"
  shows "t \<in> set (tasks f)"
proof -
  from assms obtain m where m: "all_downstream_edges f = Inr m" and l: "m t \<noteq> None"
    by (cases "all_downstream_edges f")
       (auto simp: downstream_tasks_def edges_from_def lookup_def split: option.splits)
  from m have "dom m = set (tasks f)"
    by (simp add: all_downstream_edges_def file_edges_dom dom_empty_index)
  with l show ?thesis
    by auto
qed

lemma visit_new_seen:
  "visit_new f new (ts, seen) = Inr (ts', seen') \<Longrightarrow>
     set seen' = set seen \<union> set new \<and> set new \<subseteq> set (tasks f)"
proof (induction new arbitrary: ts seen)
  case Nil
  then show ?case by simp
next
  case (Cons t new)
  from Cons.prems obtain ds where ds: "downstream_tasks f t = Inr ds"
    and rest: "visit_new f new (fold set_add ds ts, set_add t seen) = Inr (ts', seen')"
    by (cases "downstream_tasks f t") auto
  from ds have "t \<in> set (tasks f)"
    by (rule downstream_tasks_member)
  moreover from Cons.IH [OF rest]
  have "set seen' = set (set_add t seen) \<union> set new \<and> set new \<subseteq> set (tasks f)" .
  ultimately show ?case
    by (auto simp: set_add_def split: if_splits)
qed

text \<open>
  \<^verbatim>\<open>while tasks.difference(seen)\<close>: the loop that closes the root tasks under
  \<^verbatim>\<open>downstream_tasks\<close>. Every pass moves at least one task of the flow into \<open>seen\<close>.
\<close>

function (sequential) close_downstream :: "flow \<Rightarrow> task list \<Rightarrow> task list \<Rightarrow> error + task list" where
  "close_downstream f ts seen =
     (let new = filter (\<lambda>t. t \<notin> set seen) ts in
      if new = [] then Inr ts
      else (case visit_new f new (ts, seen) of
              Inl e \<Rightarrow> Inl e
            | Inr (ts', seen') \<Rightarrow> close_downstream f ts' seen'))"
  by pat_completeness auto
termination
proof (relation "measure (\<lambda>(f, ts, seen). card (set (tasks f) - set seen))")
  show "wf (measure (\<lambda>(f, ts, seen). card (set (tasks f) - set seen)))"
    by simp
next
  fix f :: flow and ts seen new :: "task list" and r ts' seen'
  assume new: "new = filter (\<lambda>t. t \<notin> set seen) ts" and ne: "new \<noteq> []"
    and v: "visit_new f new (ts, seen) = Inr r" and r: "(ts', seen') = r"
  from v r have "visit_new f new (ts, seen) = Inr (ts', seen')"
    by simp
  from visit_new_seen [OF this]
  have s: "set seen' = set seen \<union> set new" and sub: "set new \<subseteq> set (tasks f)"
    by simp_all
  from ne obtain t where t: "t \<in> set new"
    by (cases new) auto
  with new have tn: "t \<notin> set seen"
    by auto
  from t sub have tf: "t \<in> set (tasks f)"
    by auto
  have "set (tasks f) - set seen' \<subset> set (tasks f) - set seen"
    using s t tn tf by auto
  then have "card (set (tasks f) - set seen') < card (set (tasks f) - set seen)"
    by (intro psubset_card_mono) auto
  then show "((f, ts', seen'), (f, ts, seen)) \<in> measure (\<lambda>(f, ts, seen). card (set (tasks f) - set seen))"
    by simp
qed

declare close_downstream.simps [simp del]

subsection \<open>The sort\<close>

text \<open>
  One pass of \<^verbatim>\<open>for task in remaining_tasks.copy()\<close> over the state
  \<open>(remaining_tasks, sorted_tasks, cyclic)\<close>. The inner \<^verbatim>\<open>for ... else\<close> emits the task
  when no upstream task is in \<open>remaining_tasks\<close>; \<^verbatim>\<open>list.remove\<close> raises when the task
  is not in the list.
\<close>

fun scan_pass ::
  "flow \<Rightarrow> task list \<Rightarrow> task list \<times> task list \<times> bool \<Rightarrow> error + task list \<times> task list \<times> bool" where
  "scan_pass f [] st = Inr st"
| "scan_pass f (t # snapshot) (remaining, emitted, cyclic) =
     and_then (upstream_tasks f t)
       (\<lambda>ups. if list_ex (\<lambda>u. u \<in> set remaining) ups
              then scan_pass f snapshot (remaining, emitted, cyclic)
              else if t \<in> set remaining
              then scan_pass f snapshot (remove1 t remaining, emitted @ [t], False)
              else Inl NotInList)"

lemma scan_pass_length:
  "scan_pass f snapshot (remaining, emitted, cyclic) = Inr (remaining', emitted', cyclic') \<Longrightarrow>
     length remaining' \<le> length remaining \<and>
     (cyclic \<and> \<not> cyclic' \<longrightarrow> length remaining' < length remaining)"
proof (induction snapshot arbitrary: remaining emitted cyclic)
  case Nil
  then show ?case by auto
next
  case (Cons t snapshot)
  from Cons.prems obtain ups where ups: "upstream_tasks f t = Inr ups"
    by (cases "upstream_tasks f t") auto
  show ?case
  proof (cases "list_ex (\<lambda>u. u \<in> set remaining) ups")
    case True
    with Cons.prems ups
    have "scan_pass f snapshot (remaining, emitted, cyclic) = Inr (remaining', emitted', cyclic')"
      by simp
    from Cons.IH [OF this] show ?thesis .
  next
    case False
    with Cons.prems ups have mem: "t \<in> set remaining"
      and rest: "scan_pass f snapshot (remove1 t remaining, emitted @ [t], False)
                 = Inr (remaining', emitted', cyclic')"
      by (auto split: if_splits)
    from mem have "length (remove1 t remaining) < length remaining"
      by (simp add: length_remove1) (cases remaining; simp)
    with Cons.IH [OF rest] show ?thesis
      by auto
  qed
qed

text \<open>\<^verbatim>\<open>while remaining_tasks\<close>: a pass that emitted nothing raises \<^verbatim>\<open>ValueError\<close>.\<close>

function (sequential) sort_remaining :: "flow \<Rightarrow> task list \<Rightarrow> task list \<Rightarrow> error + task list" where
  "sort_remaining f remaining emitted =
     (if remaining = [] then Inr emitted
      else (case scan_pass f remaining (remaining, emitted, True) of
              Inl e \<Rightarrow> Inl e
            | Inr (remaining', emitted', cyclic) \<Rightarrow>
                if cyclic then Inl CyclicGraph else sort_remaining f remaining' emitted'))"
  by pat_completeness auto
termination
proof (relation "measure (\<lambda>(f, remaining, emitted). length remaining)")
  show "wf (measure (\<lambda>(f, remaining, emitted). length remaining))"
    by simp
next
  fix f :: flow and remaining emitted :: "task list" and r remaining' r' emitted' cyclic
  assume s: "scan_pass f remaining (remaining, emitted, True) = Inr r"
    and r: "(remaining', r') = r" and r': "(emitted', cyclic) = r'" and c: "\<not> cyclic"
  from s r r' have "scan_pass f remaining (remaining, emitted, True) = Inr (remaining', emitted', cyclic)"
    by simp
  from scan_pass_length [OF this] c
  show "((f, remaining', emitted'), (f, remaining, emitted)) \<in> measure (\<lambda>(f, remaining, emitted). length remaining)"
    by simp
qed

declare sort_remaining.simps [simp del]

text \<open>
  \<^verbatim>\<open>if root_tasks:\<close> is false for \<^verbatim>\<open>None\<close> and for an empty collection: then every
  task of the flow is sorted.
\<close>

definition working_tasks :: "flow \<Rightarrow> task list option \<Rightarrow> error + task list" where
  "working_tasks f root_tasks =
     (case root_tasks of
        None \<Rightarrow> Inr (tasks f)
      | Some [] \<Rightarrow> Inr (tasks f)
      | Some roots \<Rightarrow> close_downstream f (remdups roots) [])"

definition sorted_tasks :: "flow \<Rightarrow> task list option \<Rightarrow> error + task list" where
  "sorted_tasks f root_tasks =
     and_then (working_tasks f root_tasks) (\<lambda>ws. sort_remaining f ws [])"

definition validate :: "flow \<Rightarrow> error + unit" where
  "validate f = and_then (sorted_tasks f None) (\<lambda>_. Inr ())"

section \<open>Graph builder: the mutating operations\<close>

text \<open>Sequencing of operations on the flow: an exception stops the sequence.\<close>

fun then_do :: "outcome \<Rightarrow> (flow \<Rightarrow> outcome) \<Rightarrow> outcome" where
  "then_do (Done f) k = k f"
| "then_do (Raise e f) k = Raise e f"

fun for_each :: "'a list \<Rightarrow> ('a \<Rightarrow> flow \<Rightarrow> outcome) \<Rightarrow> flow \<Rightarrow> outcome" where
  "for_each [] body f = Done f"
| "for_each (x # xs) body f = then_do (body x f) (for_each xs body)"

text \<open>A check that reads the flow and may raise: the flow stays as it is.\<close>

definition check :: "flow \<Rightarrow> error + 'a \<Rightarrow> outcome" where
  "check f r = (case r of Inl e \<Rightarrow> Raise e f | Inr _ \<Rightarrow> Done f)"

subsection \<open>\<^verbatim>\<open>Flow.restore_graph_on_error\<close>\<close>

text \<open>
  The context manager copies \<^verbatim>\<open>self.tasks\<close> and \<^verbatim>\<open>self.edges\<close>, runs the body of the
  \<^verbatim>\<open>with\<close> block, validates when asked to, and on any exception assigns the copies
  back and raises again.
\<close>

definition restore_graph_on_error :: "bool \<Rightarrow> (flow \<Rightarrow> outcome) \<Rightarrow> flow \<Rightarrow> outcome" where
  "restore_graph_on_error validate_flag body f =
     (case then_do (body f) (\<lambda>f'. if validate_flag then check f' (validate f') else Done f') of
        Done f' \<Rightarrow> Done f'
      | Raise e f' \<Rightarrow> Raise e (f'\<lparr>tasks := tasks f, edges := edges f\<rparr>))"

subsection \<open>\<^verbatim>\<open>Flow.add_edge\<close>\<close>

text \<open>An endpoint is given as a task or as a \<^verbatim>\<open>TaskResult\<close>, which is unwrapped.\<close>

datatype endpoint = OfTask task | OfResult task_result

fun resolve :: "endpoint \<Rightarrow> task" where
  "resolve (OfTask t) = t"
| "resolve (OfResult r) = tr_task r"

text \<open>
  \<^verbatim>\<open>inspect.signature(task.run).bind_partial(**edge_keys)\<close> accepts the keywords when each
  is the name of a parameter that takes a keyword, or the signature has \<^verbatim>\<open>**kwargs\<close>.
\<close>

definition bind_partial :: "task \<Rightarrow> string list \<Rightarrow> bool" where
  "bind_partial t ks = (var_keyword t \<or> list_all (\<lambda>k. k \<in> set (kw_params t)) ks)"

definition edge_keys :: "edge list \<Rightarrow> string list" where
  "edge_keys es = remdups (concat (map (\<lambda>e. case key e of None \<Rightarrow> [] | Some k \<Rightarrow> [k]) es))"

text \<open>The duplicate-key check: \<^verbatim>\<open>if key and key in {e.key for e in self.edges_to(downstream_task)}\<close>.\<close>

definition check_duplicate_key :: "flow \<Rightarrow> task \<Rightarrow> string option \<Rightarrow> error + unit" where
  "check_duplicate_key f d k =
     (if truthy k
      then and_then (edges_to f d)
             (\<lambda>es. if k \<in> set (map key es) then Inl DuplicateKey else Inr ())
      else Inr ())"

text \<open>The body of the \<^verbatim>\<open>with\<close> block of \<^verbatim>\<open>add_edge\<close>.\<close>

definition add_edge_body :: "task \<Rightarrow> task \<Rightarrow> string option \<Rightarrow> flow \<Rightarrow> outcome" where
  "add_edge_body u d k f =
     then_do (if u \<notin> set (tasks f) then add_task f (IsTask u) else Done f)
       (\<lambda>f1. then_do (if d \<notin> set (tasks f1) then add_task f1 (IsTask d) else Done f1)
         (\<lambda>f2. let f3 = f2\<lparr>edges :=
                             set_add \<lparr>upstream_task = u, downstream_task = d, key = k\<rparr> (edges f2)\<rparr>
               in if k \<noteq> None
                  then check f3
                         (and_then (edges_to f3 d)
                            (\<lambda>es. if bind_partial d (edge_keys es) then Inr ()
                                  else Inl SignatureBind))
                  else Done f3))"

definition add_edge :: "flow \<Rightarrow> endpoint \<Rightarrow> endpoint \<Rightarrow> string option \<Rightarrow> bool \<Rightarrow> outcome" where
  "add_edge f up down k validate_flag =
     (let u = resolve up; d = resolve down in
      if is_parameter d then Raise ParameterDownstream f
      else then_do (check f (check_duplicate_key f d k))
             (restore_graph_on_error validate_flag (add_edge_body u d k)))"

subsection \<open>\<^verbatim>\<open>Flow.update\<close>, \<^verbatim>\<open>Flow.add_task_results\<close>, \<^verbatim>\<open>Flow.set_dependencies\<close>\<close>

text \<open>
  The other flow and the flow of a \<^verbatim>\<open>TaskResult\<close> are read, never written: they are
  values here.
\<close>

definition update :: "flow \<Rightarrow> flow \<Rightarrow> bool \<Rightarrow> outcome" where
  "update f other validate_flag =
     restore_graph_on_error validate_flag
       (\<lambda>f. then_do
              (for_each (tasks other)
                 (\<lambda>t f. if t \<notin> set (tasks f) then add_task f (IsTask t) else Done f) f)
              (for_each (edges other)
                 (\<lambda>e f. if e \<notin> set (edges f)
                        then add_edge f (OfTask (upstream_task e)) (OfTask (downstream_task e))
                               (key e) False
                        else Done f)))
       f"

definition add_task_results :: "flow \<Rightarrow> task_result list \<Rightarrow> bool \<Rightarrow> outcome" where
  "add_task_results f task_results validate_flag =
     restore_graph_on_error validate_flag
       (for_each task_results
          (\<lambda>t f. then_do (add_task f (IsTask (tr_task t))) (\<lambda>f. update f (tr_flow t) False)))
       f"

text \<open>
  \<^verbatim>\<open>as_task_result\<close> (of \<^verbatim>\<open>prefect.utilities.tasks\<close>) turns an argument into a
  \<^verbatim>\<open>TaskResult\<close>; it is a parameter of the model, and may raise. The value that
  \<^verbatim>\<open>set_dependencies\<close> returns, \<^verbatim>\<open>TaskResult(task=task, flow=self)\<close>, is the task
  with the flow in the state given here.
\<close>

definition set_dependencies ::
  "('x \<Rightarrow> error + task_result) \<Rightarrow> flow \<Rightarrow> 'x \<Rightarrow> 'x list \<Rightarrow> 'x list \<Rightarrow> (string \<times> 'x) list \<Rightarrow> bool
     \<Rightarrow> outcome" where
  "set_dependencies as_task_result f task_arg upstream downstream keyword_results validate_flag =
     restore_graph_on_error validate_flag
       (\<lambda>f. case as_task_result task_arg of
              Inl e \<Rightarrow> Raise e f
            | Inr result \<Rightarrow>
                let t = tr_task result in
                if var_positional t then Raise VarArgsUnsupported f
                else
                  then_do (add_task_results f [result] True)
                    (\<lambda>f. then_do
                       (for_each upstream
                          (\<lambda>x f. case as_task_result x of
                                   Inl e \<Rightarrow> Raise e f
                                 | Inr tr \<Rightarrow>
                                     then_do (add_task_results f [tr] True)
                                       (\<lambda>f. add_edge f (OfResult tr) (OfTask t) None False)) f)
                       (\<lambda>f. then_do
                          (for_each downstream
                             (\<lambda>x f. case as_task_result x of
                                      Inl e \<Rightarrow> Raise e f
                                    | Inr tr \<Rightarrow>
                                        then_do (add_task_results f [tr] True)
                                          (\<lambda>f. add_edge f (OfTask t) (OfResult tr) None False)) f)
                          (for_each keyword_results
                             (\<lambda>(k, x) f. case as_task_result x of
                                           Inl e \<Rightarrow> Raise e f
                                         | Inr tr \<Rightarrow>
                                             then_do (add_task_results f [tr] True)
                                               (\<lambda>f. add_edge f (OfResult tr) (OfTask t) (Some k)
                                                      False))))))
       f"

text \<open>
  \<^verbatim>\<open>Flow.__init__\<close>: the tasks are added, then the edges, each edge validated; the name
  defaults to the class name. An exception leaves no flow.
\<close>

definition flow_init ::
  "string option \<Rightarrow> string option \<Rightarrow> pyobj list \<Rightarrow> edge list \<Rightarrow> outcome" where
  "flow_init nm ver ts es =
     then_do
       (for_each ts (\<lambda>t f. add_task f t)
          \<lparr>name = (if truthy nm then the nm else ''Flow''), version = ver, tasks = [], edges = []\<rparr>)
       (for_each es
          (\<lambda>e f. add_edge f (OfTask (upstream_task e)) (OfTask (downstream_task e)) (key e) True))"

section \<open>Fingerprint engine\<close>

subsection \<open>Bytes, \<^verbatim>\<open>xor\<close> and UUIDs\<close>

type_synonym bytes = "8 word list"

text \<open>\<^verbatim>\<open>str.encode()\<close>; a string is held as the bytes of its encoding.\<close>

definition encode :: "string \<Rightarrow> bytes" where
  "encode s = map of_char s"

text \<open>The first \<open>n\<close> items of \<^verbatim>\<open>itertools.cycle(xs)\<close>, which is empty when \<open>xs\<close> is.\<close>

definition cycle_take :: "nat \<Rightarrow> 'a list \<Rightarrow> 'a list" where
  "cycle_take n xs = (if xs = [] then [] else take n (concat (replicate n xs)))"

text \<open>\<^verbatim>\<open>bytes([x ^ y for x, y in zip(hash1, itertools.cycle(hash2))])\<close>\<close>

definition xor :: "bytes \<Rightarrow> bytes \<Rightarrow> bytes" where
  "xor hash1 hash2 = map (\<lambda>(x, y). x XOR y) (zip hash1 (cycle_take (length hash1) hash2))"

text \<open>
  \<^verbatim>\<open>uuid.UUID(bytes=b)\<close> takes exactly 16 bytes; a UUID is held as these bytes.
  \<^verbatim>\<open>str(u)\<close> prints them in hexadecimal, in groups of 4, 2, 2, 2 and 6 bytes;
  \<^verbatim>\<open>uuid.UUID(s)\<close> reads such a string back (hyphens dropped, 32 hexadecimal digits).
\<close>

definition uuid_of_bytes :: "bytes \<Rightarrow> error + bytes" where
  "uuid_of_bytes b = (if length b = 16 then Inr b else Inl BadUUID)"

definition hex_digit :: "nat \<Rightarrow> char" where
  "hex_digit n = ''0123456789abcdef'' ! n"

definition hex_byte :: "8 word \<Rightarrow> string" where
  "hex_byte w = [hex_digit (unat w div 16), hex_digit (unat w mod 16)]"

definition hex :: "bytes \<Rightarrow> string" where
  "hex b = concat (map hex_byte b)"

definition uuid_str :: "bytes \<Rightarrow> string" where
  "uuid_str b =
     hex (take 4 b) @ ''-'' @ hex (take 2 (drop 4 b)) @ ''-'' @ hex (take 2 (drop 6 b)) @ ''-'' @
     hex (take 2 (drop 8 b)) @ ''-'' @ hex (drop 10 b)"

definition hex_value :: "char \<Rightarrow> nat option" where
  "hex_value c =
     (let n = of_char c :: nat in
      if 48 \<le> n \<and> n \<le> 57 then Some (n - 48)
      else if 97 \<le> n \<and> n \<le> 102 then Some (n - 87)
      else if 65 \<le> n \<and> n \<le> 70 then Some (n - 55)
      else None)"

fun unhex :: "string \<Rightarrow> bytes option" where
  "unhex [] = Some []"
| "unhex [c] = None"
| "unhex (c # d # cs) =
     (case (hex_value c, hex_value d, unhex cs) of
        (Some hi, Some lo, Some b) \<Rightarrow> Some (of_nat (16 * hi + lo) # b)
      | _ \<Rightarrow> None)"

definition uuid_of_str :: "string \<Rightarrow> error + bytes" where
  "uuid_of_str s =
     (let digits = filter (\<lambda>c. c \<noteq> CHR ''-'') s in
      if length digits \<noteq> 32 then Inl BadUUID
      else (case unhex digits of None \<Rightarrow> Inl BadUUID | Some b \<Rightarrow> Inr b))"

subsection \<open>\<^verbatim>\<open>get_hash\<close>\<close>

text \<open>
  What \<^verbatim>\<open>get_hash\<close> is given: bytes, a string, a task, an edge, or the pair of a hash
  and a sorted list of \<open>(key, hash)\<close> pairs that \<^verbatim>\<open>generate_task_ids\<close> builds.
\<close>

type_synonym edge_hashes = "(string option \<times> bytes) list"

datatype hashable =
    OfBytes bytes
  | OfStr string
  | ATask task
  | AnEdge edge
  | APair bytes edge_hashes

text \<open>
  The functions of other libraries are parameters: \<^verbatim>\<open>hashlib.md5(b).digest()\<close>,
  \<^verbatim>\<open>jsonpickle.dumps\<close> on a task's info, on the dictionary built for an edge and on a
  pair, and \<^verbatim>\<open>str\<close> on a pair.
\<close>

record hash_lib =
  md5 :: "bytes \<Rightarrow> bytes"
  dumps_info :: "string \<Rightarrow> string"
  dumps_edge :: "string \<Rightarrow> string \<Rightarrow> string option \<Rightarrow> string"
  dumps_pair :: "bytes \<Rightarrow> edge_hashes \<Rightarrow> string"
  str_pair :: "bytes \<Rightarrow> edge_hashes \<Rightarrow> string"

definition get_hash :: "hash_lib \<Rightarrow> hashable \<Rightarrow> bytes" where
  "get_hash lib obj =
     (case obj of
        OfBytes b \<Rightarrow> md5 lib b
      | OfStr s \<Rightarrow> md5 lib (encode s)
      | ATask t \<Rightarrow> md5 lib (encode (dumps_info lib (info t)))
      | AnEdge e \<Rightarrow>
          md5 lib (encode (dumps_edge lib (info (upstream_task e)) (info (downstream_task e))
                             (key e)))
      | APair h hs \<Rightarrow> md5 lib (encode (dumps_pair lib h hs)))"

subsection \<open>\<^verbatim>\<open>Flow.generate_flow_id\<close>\<close>

definition generate_flow_id :: "hash_lib \<Rightarrow> flow \<Rightarrow> error + string" where
  "generate_flow_id lib f =
     (let hash_bytes =
            get_hash lib
              (OfStr (name f @ '':'' @ (if truthy (version f) then the (version f) else [])))
      in and_then (uuid_of_bytes hash_bytes) (\<lambda>u. Inr (uuid_str u)))"

subsection \<open>\<^verbatim>\<open>Flow.generate_task_ids\<close>\<close>

text \<open>
  \<^verbatim>\<open>sorted\<close> on \<open>(key, hash)\<close> pairs: tuples are compared lexicographically, strings and
  bytes too; comparing a pair whose key is \<^verbatim>\<open>None\<close> with a pair whose key is a string
  raises \<^verbatim>\<open>TypeError\<close>, and a list that holds both kinds cannot be sorted without
  such a comparison.
\<close>

definition py_sorted :: "edge_hashes \<Rightarrow> error + edge_hashes" where
  "py_sorted xs =
     (if list_ex (\<lambda>(k, h). k = None) xs \<and> list_ex (\<lambda>(k, h). k \<noteq> None) xs
      then Inl CompareTypeError
      else Inr (sort xs))"

text \<open>A loop over a list whose body may raise; the results are collected.\<close>

fun collect :: "('a \<Rightarrow> error + 'b) \<Rightarrow> 'a list \<Rightarrow> error + 'b list" where
  "collect g [] = Inr []"
| "collect g (x # xs) = and_then (g x) (\<lambda>y. and_then (collect g xs) (\<lambda>ys. Inr (y # ys)))"

text \<open>
  \<^verbatim>\<open>sorted((e.key, hashes[endpoint(e)]) for e in edges)\<close>: the generator is consumed
  first, then the list is sorted.
\<close>

definition sorted_edge_hashes ::
  "(task \<rightharpoonup> bytes) \<Rightarrow> (edge \<Rightarrow> task) \<Rightarrow> edge list \<Rightarrow> error + edge_hashes" where
  "sorted_edge_hashes hashes endpoint es =
     and_then (collect (\<lambda>e. and_then (lookup hashes (endpoint e)) (\<lambda>h. Inr (key e, h))) es)
       py_sorted"

text \<open>
  The state of the passes: the dictionary \<open>hashes\<close>, the \<^verbatim>\<open>Counter\<close> (absent keys
  count 0) and the dictionary \<open>final_hashes\<close>, which keeps the order in which its keys were
  first set.
\<close>

type_synonym id_state = "(task \<rightharpoonup> bytes) \<times> (bytes \<Rightarrow> nat) \<times> (task \<times> bytes) list"

definition dict_set :: "'k \<Rightarrow> 'v \<Rightarrow> ('k \<times> 'v) list \<Rightarrow> ('k \<times> 'v) list" where
  "dict_set k v d =
     (if k \<in> set (map fst d) then map (\<lambda>(k', v'). if k' = k then (k', v) else (k', v')) d
      else d @ [(k, v)])"

text \<open>Forward pass 1: the task is hashed with the pickled pair.\<close>

fun forward_pass_1 :: "hash_lib \<Rightarrow> flow \<Rightarrow> task list \<Rightarrow> id_state \<Rightarrow> error + id_state" where
  "forward_pass_1 lib f [] st = Inr st"
| "forward_pass_1 lib f (t # ts) (hashes, counter, final_hashes) =
     and_then (lookup hashes t)
       (\<lambda>h. if counter h = 1
            then forward_pass_1 lib f ts (hashes, counter, dict_set t h final_hashes)
            else and_then (edges_to f t)
                   (\<lambda>es. and_then (sorted_edge_hashes hashes upstream_task es)
                     (\<lambda>ehs. let h' = get_hash lib (APair h ehs)
                            in forward_pass_1 lib f ts
                                 (hashes(t \<mapsto> h'), counter(h' := counter h' + 1),
                                  final_hashes))))"

text \<open>The backward pass: outgoing edges, and the string of the pair is hashed.\<close>

fun backward_pass :: "hash_lib \<Rightarrow> flow \<Rightarrow> task list \<Rightarrow> id_state \<Rightarrow> error + id_state" where
  "backward_pass lib f [] st = Inr st"
| "backward_pass lib f (t # ts) (hashes, counter, final_hashes) =
     and_then (lookup hashes t)
       (\<lambda>h. if counter h = 1
            then backward_pass lib f ts (hashes, counter, dict_set t h final_hashes)
            else and_then (edges_from f t)
                   (\<lambda>es. and_then (sorted_edge_hashes hashes downstream_task es)
                     (\<lambda>ehs. let h' = get_hash lib (OfStr (str_pair lib h ehs))
                            in backward_pass lib f ts
                                 (hashes(t \<mapsto> h'), counter(h' := counter h' + 1),
                                  final_hashes))))"

text \<open>
  The duplicate check of forward pass 2:
  \<^verbatim>\<open>while counter[hashes[t]] > 1: hashes[t] = get_hash(hashes[t]); counter[hashes[t]] += 1\<close>.
  Nothing in the code bounds this loop, so it is a partial function: \<open>None\<close> stands for a
  loop that never ends.
\<close>

partial_function (option) rehash_until_unique ::
  "hash_lib \<Rightarrow> bytes \<Rightarrow> (bytes \<Rightarrow> nat) \<Rightarrow> (bytes \<times> (bytes \<Rightarrow> nat)) option" where
  "rehash_until_unique lib h counter =
     (if counter h > 1
      then (let h' = get_hash lib (OfBytes h)
            in rehash_until_unique lib h' (counter(h' := counter h' + 1)))
      else Some (h, counter))"

fun forward_pass_2 ::
  "hash_lib \<Rightarrow> flow \<Rightarrow> task list \<Rightarrow> id_state \<Rightarrow> (error + id_state) option" where
  "forward_pass_2 lib f [] st = Some (Inr st)"
| "forward_pass_2 lib f (t # ts) (hashes, counter, final_hashes) =
     (case lookup hashes t of
        Inl e \<Rightarrow> Some (Inl e)
      | Inr h \<Rightarrow>
          if counter h = 1
          then forward_pass_2 lib f ts (hashes, counter, dict_set t h final_hashes)
          else (case and_then (edges_to f t) (sorted_edge_hashes hashes upstream_task) of
                  Inl e \<Rightarrow> Some (Inl e)
                | Inr ehs \<Rightarrow>
                    let h' = get_hash lib (OfStr (str_pair lib h ehs))
                    in (case rehash_until_unique lib h' (counter(h' := counter h' + 1)) of
                          None \<Rightarrow> None
                        | Some (h'', counter') \<Rightarrow>
                            forward_pass_2 lib f ts
                              (hashes(t \<mapsto> h''), counter', dict_set t h'' final_hashes))))"

text \<open>
  \<^verbatim>\<open>generate_task_ids\<close>: the initial hashes and their \<^verbatim>\<open>Counter\<close>, the three passes
  over \<^verbatim>\<open>sorted_tasks()\<close>, and the seeding with the bytes of the flow's UUID. The result
  is the dictionary from tasks to UUID strings, in the order of \<open>final_hashes\<close>.
\<close>

definition generate_task_ids ::
  "hash_lib \<Rightarrow> flow \<Rightarrow> (error + (task \<times> string) list) option" where
  "generate_task_ids lib f =
     (let hashes = map_of (map (\<lambda>t. (t, get_hash lib (ATask t))) (tasks f));
          counter = count_list (map (\<lambda>t. get_hash lib (ATask t)) (remdups (tasks f)))
      in case and_then (sorted_tasks f None)
                (\<lambda>ts. and_then (forward_pass_1 lib f ts (hashes, counter, []))
                  (\<lambda>st1. and_then (sorted_tasks f None)
                    (\<lambda>ts. and_then (backward_pass lib f (rev ts) st1)
                      (\<lambda>st2. and_then (sorted_tasks f None) (\<lambda>ts. Inr (ts, st2)))))) of
           Inl e \<Rightarrow> Some (Inl e)
         | Inr (ts, st2) \<Rightarrow>
             (case forward_pass_2 lib f ts st2 of
                None \<Rightarrow> None
              | Some (Inl e) \<Rightarrow> Some (Inl e)
              | Some (Inr (hashes, counter, final_hashes)) \<Rightarrow>
                  Some (and_then (generate_flow_id lib f)
                          (\<lambda>fid. and_then (uuid_of_str fid)
                            (\<lambda>seed. collect
                                      (\<lambda>(t, h). and_then (uuid_of_bytes (xor seed h))
                                                  (\<lambda>u. Inr (t, uuid_str u)))
                                      final_hashes)))))"

section \<open>Reachable flows\<close>

text \<open>The fourth invariant of the data model: no edge ends in a \<^verbatim>\<open>Parameter\<close>.\<close>

definition no_parameter_downstream :: "flow \<Rightarrow> bool" where
  "no_parameter_downstream f = list_all (\<lambda>e. \<not> is_parameter (downstream_task e)) (edges f)"

text \<open>
  The states a flow can be in: the state in which the constructor returns, and the state
  every operation of the graph builder leaves behind, whether it returns or raises. The
  arguments are arbitrary; the flows passed to \<^verbatim>\<open>update\<close> and carried by a
  \<^verbatim>\<open>TaskResult\<close> need not be reachable themselves.
\<close>

inductive reachable :: "('x \<Rightarrow> error + task_result) \<Rightarrow> flow \<Rightarrow> bool"
  for as_task_result :: "'x \<Rightarrow> error + task_result" where
  construction:
    "flow_init nm ver ts es = Done f \<Longrightarrow> reachable as_task_result f"
| after_add_task:
    "reachable as_task_result f \<Longrightarrow> reachable as_task_result (state_of (add_task f x))"
| after_add_edge:
    "reachable as_task_result f \<Longrightarrow>
       reachable as_task_result (state_of (add_edge f up down k v))"
| after_update:
    "reachable as_task_result f \<Longrightarrow> reachable as_task_result (state_of (update f other v))"
| after_add_task_results:
    "reachable as_task_result f \<Longrightarrow>
       reachable as_task_result (state_of (add_task_results f results v))"
| after_set_dependencies:
    "reachable as_task_result f \<Longrightarrow>
       reachable as_task_result
         (state_of (set_dependencies as_task_result f x ups downs kws v))"

section \<open>Well-formed flows, cycles and topological orders\<close>

text \<open>
  The first invariant of the data model, with the fact that the task set is a set: every
  endpoint of an edge is a task of the flow.
\<close>

definition well_formed :: "flow \<Rightarrow> bool" where
  "well_formed f =
     (distinct (tasks f) \<and>
      list_all (\<lambda>e. upstream_task e \<in> set (tasks f) \<and> downstream_task e \<in> set (tasks f))
        (edges f))"

text \<open>
  The edges between the tasks of a working set \<open>W\<close>, as a relation, and the property that
  they close a cycle.
\<close>

definition edge_rel :: "flow \<Rightarrow> task set \<Rightarrow> (task \<times> task) set" where
  "edge_rel f W =
     (\<lambda>e. (upstream_task e, downstream_task e)) `
       {e \<in> set (edges f). upstream_task e \<in> W \<and> downstream_task e \<in> W}"

definition has_cycle :: "flow \<Rightarrow> task set \<Rightarrow> bool" where
  "has_cycle f W = (\<exists>t. (t, t) \<in> (edge_rel f W)\<^sup>+)"

text \<open>
  A list is ordered by a relation when every predecessor of an item stands before it; the
  invariant of the sort loop says that the emitted tasks are so ordered and that, with the
  remaining ones, they are the working set.
\<close>

definition ordered :: "(task \<times> task) set \<Rightarrow> task list \<Rightarrow> bool" where
  "ordered R xs = (\<forall>i < length xs. \<forall>u. (u, xs ! i) \<in> R \<longrightarrow> u \<in> set (take i xs))"

definition sort_inv :: "task set \<Rightarrow> (task \<times> task) set \<Rightarrow> task list \<Rightarrow> task list \<Rightarrow> bool" where
  "sort_inv W R remaining emitted =
     (distinct remaining \<and> distinct emitted \<and> set remaining \<inter> set emitted = {} \<and>
      set remaining \<union> set emitted = W \<and> ordered R emitted)"

section \<open>Properties of the graph index\<close>

lemma file_edges_error:
  "file_edges endpoint es m0 = Inl e \<Longrightarrow> e = KeyError"
  by (induction es arbitrary: m0) (auto split: option.splits)

lemma file_edges_step:
  "m0 (endpoint a) = Some sa \<Longrightarrow>
     file_edges endpoint (a # es) m0 = file_edges endpoint es (m0(endpoint a \<mapsto> set_add a sa))"
  by simp

lemma file_edges_missing:
  "e \<in> set es \<Longrightarrow> endpoint e \<notin> dom m0 \<Longrightarrow> file_edges endpoint es m0 = Inl KeyError"
proof (induction es arbitrary: m0)
  case Nil
  then show ?case by simp
next
  case (Cons a es)
  show ?case
  proof (cases "m0 (endpoint a)")
    case None
    then show ?thesis by simp
  next
    case (Some sa)
    with Cons.prems have ne: "endpoint e \<noteq> endpoint a"
      by auto
    with Cons.prems Some have "e \<in> set es"
      by auto
    moreover from ne Cons.prems(2) have "endpoint e \<notin> dom (m0(endpoint a \<mapsto> set_add a sa))"
      by auto
    ultimately have "file_edges endpoint es (m0(endpoint a \<mapsto> set_add a sa)) = Inl KeyError"
      by (rule Cons.IH)
    with file_edges_step [of m0 endpoint a sa es] Some show ?thesis
      by simp
  qed
qed

lemma file_edges_content:
  "file_edges endpoint es m0 = Inr m1 \<Longrightarrow> m0 t = Some s \<Longrightarrow>
     \<exists>s'. m1 t = Some s' \<and> set s' = set s \<union> {e \<in> set es. endpoint e = t}"
proof (induction es arbitrary: m0 s)
  case Nil
  then show ?case by simp
next
  case (Cons a es)
  from Cons.prems(1) obtain sa where sa: "m0 (endpoint a) = Some sa"
    and rest: "file_edges endpoint es (m0(endpoint a \<mapsto> set_add a sa)) = Inr m1"
    by (auto split: option.splits)
  show ?case
  proof (cases "endpoint a = t")
    case True
    with sa Cons.prems(2) have "sa = s" by simp
    with True have "(m0(endpoint a \<mapsto> set_add a sa)) t = Some (set_add a s)" by simp
    from Cons.IH [OF rest this] True show ?thesis
      by (auto simp: set_add_def split: if_splits)
  next
    case False
    with Cons.prems(2) have "(m0(endpoint a \<mapsto> set_add a sa)) t = Some s" by simp
    from Cons.IH [OF rest this] False show ?thesis
      by auto
  qed
qed

lemma file_edges_total:
  "\<forall>e \<in> set es. endpoint e \<in> dom m0 \<Longrightarrow> \<exists>m1. file_edges endpoint es m0 = Inr m1"
proof (induction es arbitrary: m0)
  case Nil
  then show ?case by simp
next
  case (Cons a es)
  from Cons.prems obtain sa where sa: "m0 (endpoint a) = Some sa" by auto
  from Cons.prems have "\<forall>e \<in> set es. endpoint e \<in> dom (m0(endpoint a \<mapsto> set_add a sa))"
    by auto
  then have "\<exists>m1. file_edges endpoint es (m0(endpoint a \<mapsto> set_add a sa)) = Inr m1"
    by (rule Cons.IH)
  with file_edges_step [of m0 endpoint a sa es] sa show ?case
    by simp
qed

lemma edges_to_error: "edges_to f t = Inl e \<Longrightarrow> e = KeyError"
  by (cases "all_upstream_edges f")
     (auto simp: edges_to_def all_upstream_edges_def lookup_def
           dest: file_edges_error split: option.splits)

lemma edges_from_error: "edges_from f t = Inl e \<Longrightarrow> e = KeyError"
  by (cases "all_downstream_edges f")
     (auto simp: edges_from_def all_downstream_edges_def lookup_def
           dest: file_edges_error split: option.splits)

lemma edges_to_not_member:
  assumes "t \<notin> set (tasks f)"
  shows "edges_to f t = Inl KeyError"
proof (cases "all_upstream_edges f")
  case (Inl e)
  then show ?thesis
    by (auto simp: edges_to_def all_upstream_edges_def dest: file_edges_error)
next
  case (Inr m)
  then have "dom m = set (tasks f)"
    by (simp add: all_upstream_edges_def file_edges_dom dom_empty_index)
  with assms have "m t = None" by auto
  with Inr show ?thesis
    by (simp add: edges_to_def lookup_def)
qed

lemma edges_from_not_member:
  assumes "t \<notin> set (tasks f)"
  shows "edges_from f t = Inl KeyError"
proof (cases "all_downstream_edges f")
  case (Inl e)
  then show ?thesis
    by (auto simp: edges_from_def all_downstream_edges_def dest: file_edges_error)
next
  case (Inr m)
  then have "dom m = set (tasks f)"
    by (simp add: all_downstream_edges_def file_edges_dom dom_empty_index)
  with assms have "m t = None" by auto
  with Inr show ?thesis
    by (simp add: edges_from_def lookup_def)
qed

lemma empty_index_Some: "t \<in> set ts \<Longrightarrow> map_of (map (\<lambda>t. (t, [])) ts) t = Some []"
  by (induction ts) auto

lemma edges_to_member:
  assumes "\<forall>e \<in> set (edges f). downstream_task e \<in> set (tasks f)" and "t \<in> set (tasks f)"
  shows "\<exists>es. edges_to f t = Inr es \<and> set es = {e \<in> set (edges f). downstream_task e = t}"
proof -
  from assms(1) obtain m where m: "all_upstream_edges f = Inr m"
    unfolding all_upstream_edges_def
    using file_edges_total [of "edges f" downstream_task "map_of (map (\<lambda>t. (t, [])) (tasks f))"]
    by (auto simp: dom_empty_index)
  from file_edges_content [OF m [unfolded all_upstream_edges_def] empty_index_Some [OF assms(2)]]
  obtain s' where "m t = Some s'" "set s' = {e \<in> set (edges f). downstream_task e = t}"
    by auto
  with m show ?thesis
    by (simp add: edges_to_def lookup_def)
qed

lemma edges_from_member:
  assumes "\<forall>e \<in> set (edges f). upstream_task e \<in> set (tasks f)" and "t \<in> set (tasks f)"
  shows "\<exists>es. edges_from f t = Inr es \<and> set es = {e \<in> set (edges f). upstream_task e = t}"
proof -
  from assms(1) obtain m where m: "all_downstream_edges f = Inr m"
    unfolding all_downstream_edges_def
    using file_edges_total [of "edges f" upstream_task "map_of (map (\<lambda>t. (t, [])) (tasks f))"]
    by (auto simp: dom_empty_index)
  from file_edges_content [OF m [unfolded all_downstream_edges_def] empty_index_Some [OF assms(2)]]
  obtain s' where "m t = Some s'" "set s' = {e \<in> set (edges f). upstream_task e = t}"
    by auto
  with m show ?thesis
    by (simp add: edges_from_def lookup_def)
qed

lemma edges_to_Inr:
  assumes "edges_to f t = Inr es"
  shows "t \<in> set (tasks f) \<and> set es = {e \<in> set (edges f). downstream_task e = t}
         \<and> (\<forall>e \<in> set (edges f). downstream_task e \<in> set (tasks f))"
proof -
  from assms obtain m where m: "all_upstream_edges f = Inr m" and l: "m t = Some es"
    by (cases "all_upstream_edges f") (auto simp: edges_to_def lookup_def split: option.splits)
  have d: "dom m = set (tasks f)"
    using m by (simp add: all_upstream_edges_def file_edges_dom dom_empty_index)
  with l have t: "t \<in> set (tasks f)" by auto
  have all: "\<forall>e \<in> set (edges f). downstream_task e \<in> set (tasks f)"
  proof
    fix e assume e: "e \<in> set (edges f)"
    show "downstream_task e \<in> set (tasks f)"
    proof (rule ccontr)
      assume "downstream_task e \<notin> set (tasks f)"
      with e have "all_upstream_edges f = Inl KeyError"
        unfolding all_upstream_edges_def
        by (intro file_edges_missing [of e]) (simp_all add: dom_empty_index)
      with m show False by simp
    qed
  qed
  from edges_to_member [OF all t] assms show ?thesis
    using t all by auto
qed

section \<open>The exceptions of the topology engine\<close>

lemma upstream_tasks_error: "upstream_tasks f t = Inl e \<Longrightarrow> e = KeyError"
  by (cases "edges_to f t") (auto simp: upstream_tasks_def dest: edges_to_error)

lemma downstream_tasks_error: "downstream_tasks f t = Inl e \<Longrightarrow> e = KeyError"
  by (cases "edges_from f t") (auto simp: downstream_tasks_def dest: edges_from_error)

lemma visit_new_error: "visit_new f new st = Inl e \<Longrightarrow> e = KeyError"
proof (induction new arbitrary: st)
  case Nil
  then show ?case by (cases st) simp
next
  case (Cons t new)
  obtain ts seen where st: "st = (ts, seen)" by (cases st)
  show ?case
  proof (cases "downstream_tasks f t")
    case (Inl e')
    with Cons.prems st show ?thesis
      by (auto dest: downstream_tasks_error)
  next
    case (Inr ds)
    with Cons.prems st show ?thesis
      by (auto dest: Cons.IH)
  qed
qed

lemma close_downstream_error: "close_downstream f ts seen = Inl e \<Longrightarrow> e = KeyError"
proof (induction f ts seen rule: close_downstream.induct)
  case (1 f ts seen)
  let ?new = "filter (\<lambda>t. t \<notin> set seen) ts"
  note unfold = close_downstream.simps [of f ts seen]
  from "1.prems" have ne: "?new \<noteq> []"
    by (auto simp: unfold Let_def split: if_splits)
  show ?case
  proof (cases "visit_new f ?new (ts, seen)")
    case (Inl e')
    with "1.prems" ne have "e' = e" by (simp add: unfold Let_def)
    with Inl show ?thesis by (auto dest: visit_new_error)
  next
    case (Inr r)
    obtain ts' seen' where r: "r = (ts', seen')" by (cases r)
    with Inr "1.prems" ne have "close_downstream f ts' seen' = Inl e"
      by (simp add: unfold Let_def)
    with "1.IH" [OF refl ne Inr r [symmetric]] show ?thesis
      by simp
  qed
qed

lemma scan_pass_error: "scan_pass f snapshot st = Inl e \<Longrightarrow> e = KeyError \<or> e = NotInList"
proof (induction snapshot arbitrary: st)
  case Nil
  then show ?case by simp
next
  case (Cons t snapshot)
  obtain remaining emitted cyclic where st: "st = (remaining, emitted, cyclic)"
    by (cases st)
  show ?case
  proof (cases "upstream_tasks f t")
    case (Inl e')
    with Cons.prems st show ?thesis
      by (auto dest: upstream_tasks_error)
  next
    case (Inr ups)
    with Cons.prems st show ?thesis
      by (auto dest: Cons.IH split: if_splits)
  qed
qed

lemma sort_remaining_error:
  "sort_remaining f remaining emitted = Inl e \<Longrightarrow>
     e = KeyError \<or> e = NotInList \<or> e = CyclicGraph"
proof (induction f remaining emitted rule: sort_remaining.induct)
  case (1 f remaining emitted)
  note unfold = sort_remaining.simps [of f remaining emitted]
  from "1.prems" have ne: "remaining \<noteq> []"
    by (auto simp: unfold split: if_splits)
  show ?case
  proof (cases "scan_pass f remaining (remaining, emitted, True)")
    case (Inl e')
    with "1.prems" ne have "e' = e" by (simp add: unfold)
    with Inl show ?thesis by (auto dest: scan_pass_error)
  next
    case (Inr r)
    obtain remaining' emitted' cyclic where r: "r = (remaining', emitted', cyclic)"
      by (cases r)
    show ?thesis
    proof (cases cyclic)
      case True
      with Inr r "1.prems" ne show ?thesis by (simp add: unfold)
    next
      case False
      with Inr r "1.prems" ne have "sort_remaining f remaining' emitted' = Inl e"
        by (simp add: unfold)
      with "1.IH" [OF ne Inr _ _ False] r show ?thesis
        by simp
    qed
  qed
qed

lemma sorted_tasks_error:
  "sorted_tasks f roots = Inl e \<Longrightarrow> e = KeyError \<or> e = NotInList \<or> e = CyclicGraph"
proof (cases "working_tasks f roots")
  case (Inl e')
  assume "sorted_tasks f roots = Inl e"
  with Inl have "e' = e" by (simp add: sorted_tasks_def)
  with Inl show ?thesis
    by (auto simp: working_tasks_def dest: close_downstream_error split: option.splits list.splits)
next
  case (Inr ws)
  assume "sorted_tasks f roots = Inl e"
  with Inr show ?thesis
    by (auto simp: sorted_tasks_def dest: sort_remaining_error)
qed

lemma validate_error:
  "validate f = Inl e \<Longrightarrow> e = KeyError \<or> e = NotInList \<or> e = CyclicGraph"
  by (cases "sorted_tasks f None") (auto simp: validate_def dest: sorted_tasks_error)

text \<open>Concrete tasks and flows used to exercise the theorems.\<close>

definition mk_task :: "nat \<Rightarrow> string option \<Rightarrow> string \<Rightarrow> string list \<Rightarrow> task" where
  "mk_task i s nfo ps =
     \<lparr>tid = i, slug = s, is_parameter = False, info = nfo, kw_params = ps,
      var_keyword = False, var_positional = False\<rparr>"

definition empty_flow :: flow where
  "empty_flow = \<lparr>name = ''etl'', version = Some ''1'', tasks = [], edges = []\<rparr>"

definition task_a :: task where
  "task_a = mk_task 1 None ''A'' []"

definition task_b :: task where
  "task_b = mk_task 2 None ''B'' [''x'']"

definition task_c :: task where
  "task_c = mk_task 3 None ''C'' []"

definition param_p :: task where
  "param_p = (mk_task 4 None ''P'' [])\<lparr>is_parameter := True\<rparr>"

definition task_kw :: task where
  "task_kw = (mk_task 5 None ''K'' [])\<lparr>var_keyword := True\<rparr>"

definition mk_edge :: "task \<Rightarrow> task \<Rightarrow> string option \<Rightarrow> edge" where
  "mk_edge u d k = \<lparr>upstream_task = u, downstream_task = d, key = k\<rparr>"

definition chain_flow :: flow where
  "chain_flow = empty_flow\<lparr>tasks := [task_a, task_b, task_c],
                           edges := [mk_edge task_a task_b None, mk_edge task_b task_c None]\<rparr>"

definition pair_flow :: flow where
  "pair_flow = empty_flow\<lparr>tasks := [task_a, task_b], edges := [mk_edge task_a task_b None]\<rparr>"

text \<open>A small stand-in for the hashing libraries: the digest is the input cut or padded to 16 bytes.\<close>

definition toy_lib :: hash_lib where
  "toy_lib = \<lparr>md5 = (\<lambda>b. take 16 (b @ replicate 16 0)),
              dumps_info = (\<lambda>s. s),
              dumps_edge = (\<lambda>u d k. u @ d),
              dumps_pair = (\<lambda>h hs. []),
              str_pair = (\<lambda>h hs. [])\<rparr>"

text \<open>
  Two tasks with the same info, one of them fed by \<open>task_a\<close> twice: once without a key
  and once under the key \<^verbatim>\<open>x\<close>.
\<close>

definition dup_1 :: task where "dup_1 = mk_task 6 None ''T'' [''x'']"
definition dup_2 :: task where "dup_2 = mk_task 7 None ''T'' [''x'']"

definition mixed_flow :: flow where
  "mixed_flow = empty_flow\<lparr>tasks := [task_a, dup_1, dup_2],
     edges := [mk_edge task_a dup_1 None, mk_edge task_a dup_1 (Some ''x'')]\<rparr>"

text \<open>The pipeline of three tasks, listed in an order that is not topological, and a cycle.\<close>

definition task_extract :: task where
  "task_extract = mk_task 10 (Some ''extract'') ''extract'' []"

definition task_transform :: task where
  "task_transform = mk_task 11 (Some ''transform'') ''transform'' [''data'']"

definition task_load :: task where
  "task_load = mk_task 12 (Some ''load'') ''load'' []"

definition etl_flow :: flow where
  "etl_flow = empty_flow\<lparr>tasks := [task_load, task_transform, task_extract],
     edges := [mk_edge task_extract task_transform (Some ''data''), mk_edge task_transform task_load None]\<rparr>"

definition loop_flow :: flow where
  "loop_flow = empty_flow\<lparr>tasks := [task_a, task_b, task_c],
     edges := [mk_edge task_a task_b None, mk_edge task_b task_c None,
               mk_edge task_c task_a None]\<rparr>"

section \<open>Slug uniqueness\<close>

text \<open>
  C9. In a flow that holds a task with the non-empty slug \<open>s\<close>, \<^verbatim>\<open>add_task\<close> of another
  task, not a member of the task set, whose slug is also \<open>s\<close> raises the duplicate-slug
  \<^verbatim>\<open>ValueError\<close> and leaves the flow, hence its task set and the task it held, as it was.
\<close>

theorem add_task_duplicate_slug:
  assumes "t' \<in> set (tasks f)" and "slug t' = Some s" and "s \<noteq> []"
    and "t \<notin> set (tasks f)" and "slug t = Some s"
  shows "add_task f (IsTask t) = Raise DuplicateSlug f"
proof -
  from assms(1,2,5) have "slug t \<in> set (map slug (tasks f))"
    by force
  with assms(3,4,5) show ?thesis
    by (simp add: add_task_def)
qed

theorem add_task_duplicate_slug_witness:
  "add_task (empty_flow\<lparr>tasks := [mk_task 1 (Some ''a'') ''A'' []]\<rparr>)
     (IsTask (mk_task 2 (Some ''a'') ''B'' []))
   = Raise DuplicateSlug (empty_flow\<lparr>tasks := [mk_task 1 (Some ''a'') ''A'' []]\<rparr>)"
  by (rule add_task_duplicate_slug [where t' = "mk_task 1 (Some ''a'') ''A'' []" and s = "''a''"])
     (simp_all add: mk_task_def empty_flow_def)

section \<open>Exceptions of the graph builder\<close>

lemma add_task_error: "add_task f x = Raise e f' \<Longrightarrow> e = NotATask \<or> e = DuplicateSlug"
  by (auto simp: add_task_def split: pyobj.splits if_splits)

lemma then_do_Raise:
  "then_do r k = Raise e f' \<Longrightarrow>
     r = Raise e f' \<or> (\<exists>f1. r = Done f1 \<and> k f1 = Raise e f')"
  by (cases r) auto

lemma restore_Raise:
  "restore_graph_on_error v body f = Raise e f' \<Longrightarrow>
     (\<exists>f1. body f = Raise e f1) \<or> (\<exists>f1. body f = Done f1 \<and> v \<and> validate f1 = Inl e)"
  by (cases "body f")
     (auto simp: restore_graph_on_error_def check_def split: if_splits sum.splits)

lemma add_edge_body_unkeyed_error:
  "add_edge_body u d None f = Raise e f' \<Longrightarrow> e = DuplicateSlug"
  by (auto simp: add_edge_body_def Let_def add_task_def
           dest!: then_do_Raise split: if_splits)

section \<open>The adjacency index is defined on the task set only\<close>

text \<open>
  C10, as the code has it. \<^verbatim>\<open>edges_to(task)\<close> and \<^verbatim>\<open>edges_from(task)\<close> raise
  \<^verbatim>\<open>KeyError\<close> for every task that is not in the task set. \<^verbatim>\<open>add_edge\<close> with a
  non-empty key whose downstream task is not in the task set and is not a \<^verbatim>\<open>Parameter\<close>
  raises that \<^verbatim>\<open>KeyError\<close> at the duplicate-key check, with the flow untouched, whatever
  the \<^verbatim>\<open>validate\<close> flag.
\<close>

theorem edges_index_only_members:
  "(t \<notin> set (tasks f) \<longrightarrow> edges_to f t = Inl KeyError \<and> edges_from f t = Inl KeyError) \<and>
   (resolve down \<notin> set (tasks f) \<and> \<not> is_parameter (resolve down) \<and> k \<noteq> [] \<longrightarrow>
      add_edge f up down (Some k) validate_flag = Raise KeyError f)"
  by (simp add: edges_to_not_member edges_from_not_member add_edge_def check_duplicate_key_def
        check_def)

theorem edges_index_only_members_witness:
  "task_b \<notin> set (tasks empty_flow) \<and> edges_to empty_flow task_b = Inl KeyError \<and>
   edges_from empty_flow task_b = Inl KeyError \<and>
   add_edge empty_flow (OfTask task_a) (OfTask task_b) (Some ''data'') False
     = Raise KeyError empty_flow"
  using edges_index_only_members [of task_b empty_flow "OfTask task_b" "''data''" "OfTask task_a" False]
  by (simp add: empty_flow_def task_b_def mk_task_def)

text \<open>
  The claim as stated, for every key that is not \<^verbatim>\<open>None\<close>, fails twice: a
  \<^verbatim>\<open>Parameter\<close> downstream is rejected by the check before the duplicate-key check,
  and the empty key skips the duplicate-key check (\<^verbatim>\<open>if key and ...\<close>), so that the call
  goes on to insert both endpoints.
\<close>

theorem add_edge_keyed_counterexample:
  "param_p \<notin> set (tasks empty_flow) \<and>
   add_edge empty_flow (OfTask task_a) (OfTask param_p) (Some ''x'') True
     = Raise ParameterDownstream empty_flow \<and>
   task_kw \<notin> set (tasks empty_flow) \<and>
   add_edge empty_flow (OfTask task_a) (OfTask task_kw) (Some '''') True
     = Done (empty_flow\<lparr>tasks := [task_a, task_kw],
                        edges := [mk_edge task_a task_kw (Some '''')]\<rparr>)"
  by code_simp

section \<open>Endpoints that are not yet tasks of the flow\<close>

text \<open>
  C5 at a failing input: on the empty flow, \<^verbatim>\<open>add_edge(a, b, key="x")\<close> does not insert
  the two tasks; it raises \<^verbatim>\<open>KeyError\<close> from \<^verbatim>\<open>edges_to(b)\<close> in the duplicate-key
  check.
\<close>

theorem add_edge_missing_downstream_keyed:
  "add_edge empty_flow (OfTask task_a) (OfTask task_b) (Some ''x'') True
     = Raise KeyError empty_flow"
  by code_simp

section \<open>The signature check of \<^verbatim>\<open>add_edge\<close>\<close>

text \<open>
  C6, as the code has it. The binding of the edge keys against the signature of the
  downstream task stands in the \<^verbatim>\<open>with\<close> block under \<^verbatim>\<open>if key is not None\<close>, and
  nowhere under the \<^verbatim>\<open>validate\<close> flag: for an edge between two tasks of the flow whose
  key is new for the downstream task and is not accepted by its signature, \<^verbatim>\<open>add_edge\<close>
  raises the binding error and leaves the flow as it was, for either value of the flag; with
  the key \<^verbatim>\<open>None\<close> it never raises the binding error.
\<close>

theorem signature_check_ignores_validate:
  "(resolve up \<in> set (tasks f) \<and> resolve down \<in> set (tasks f) \<and>
    \<not> is_parameter (resolve down) \<and>
    (\<forall>e \<in> set (edges f). downstream_task e \<in> set (tasks f) \<and>
       (downstream_task e = resolve down \<longrightarrow> key e \<noteq> Some k)) \<and>
    \<not> var_keyword (resolve down) \<and> k \<notin> set (kw_params (resolve down))
    \<longrightarrow> add_edge f up down (Some k) validate_flag = Raise SignatureBind f) \<and>
   add_edge f up down None validate_flag \<noteq> Raise SignatureBind f'"
proof (intro conjI impI)
  show "add_edge f up down None validate_flag \<noteq> Raise SignatureBind f'"
  proof
    assume a: "add_edge f up down None validate_flag = Raise SignatureBind f'"
    then have "restore_graph_on_error validate_flag (add_edge_body (resolve up) (resolve down) None) f
               = Raise SignatureBind f'"
      by (auto simp: add_edge_def Let_def check_duplicate_key_def check_def split: if_splits)
    from restore_Raise [OF this] show False
      by (auto dest: add_edge_body_unkeyed_error validate_error)
  qed
next
  let ?u = "resolve up" and ?d = "resolve down"
  let ?e = "\<lparr>upstream_task = ?u, downstream_task = ?d, key = Some k\<rparr>"
  let ?f3 = "f\<lparr>edges := set_add ?e (edges f)\<rparr>"
  assume h: "resolve up \<in> set (tasks f) \<and> resolve down \<in> set (tasks f) \<and>
    \<not> is_parameter (resolve down) \<and>
    (\<forall>e \<in> set (edges f). downstream_task e \<in> set (tasks f) \<and>
       (downstream_task e = resolve down \<longrightarrow> key e \<noteq> Some k)) \<and>
    \<not> var_keyword (resolve down) \<and> k \<notin> set (kw_params (resolve down))"
  then have wf: "\<forall>e \<in> set (edges f). downstream_task e \<in> set (tasks f)" and d: "?d \<in> set (tasks f)"
    by auto
  from edges_to_member [OF wf d] obtain es where es: "edges_to f ?d = Inr es"
    and ses: "set es = {e \<in> set (edges f). downstream_task e = ?d}"
    by auto
  from h ses have "Some k \<notin> set (map key es)"
    by auto
  with es have dup: "check_duplicate_key f ?d (Some k) = Inr ()"
    by (simp add: check_duplicate_key_def)
  have wf3: "\<forall>e \<in> set (edges ?f3). downstream_task e \<in> set (tasks ?f3)"
    using wf d by (auto simp: set_add_def)
  from d have d3: "?d \<in> set (tasks ?f3)"
    by simp
  from edges_to_member [OF wf3 d3] obtain es3 where es3: "edges_to ?f3 ?d = Inr es3"
    and ses3: "set es3 = {e \<in> set (edges ?f3). downstream_task e = ?d}"
    by auto
  from ses3 have "?e \<in> set es3"
    by (auto simp: set_add_def)
  then have "k \<in> set (edge_keys es3)"
    by (force simp: edge_keys_def)
  with h have "\<not> bind_partial ?d (edge_keys es3)"
    by (auto simp: bind_partial_def list_all_iff)
  with es3 h have "add_edge_body ?u ?d (Some k) f = Raise SignatureBind ?f3"
    by (simp add: add_edge_body_def Let_def check_def)
  then have "restore_graph_on_error validate_flag (add_edge_body ?u ?d (Some k)) f
             = Raise SignatureBind f"
    by (simp add: restore_graph_on_error_def)
  with h dup show "add_edge f up down (Some k) validate_flag = Raise SignatureBind f"
    by (simp add: add_edge_def Let_def check_def)
qed

theorem signature_check_ignores_validate_witness:
  "add_edge (empty_flow\<lparr>tasks := [task_a, task_b]\<rparr>) (OfTask task_a) (OfTask task_b)
     (Some ''y'') True
   = Raise SignatureBind (empty_flow\<lparr>tasks := [task_a, task_b]\<rparr>)"
  using signature_check_ignores_validate
    [of "OfTask task_a" "empty_flow\<lparr>tasks := [task_a, task_b]\<rparr>" "OfTask task_b" "''y''" True]
  by (simp add: empty_flow_def task_a_def task_b_def mk_task_def)

text \<open>The claim as stated fails: with \<^verbatim>\<open>validate=False\<close> the binding is still checked.\<close>

theorem signature_check_unvalidated_counterexample:
  "add_edge (empty_flow\<lparr>tasks := [task_a, task_b]\<rparr>) (OfTask task_a) (OfTask task_b)
     (Some ''zzz'') False
   = Raise SignatureBind (empty_flow\<lparr>tasks := [task_a, task_b]\<rparr>)"
  by code_simp

section \<open>Rollback\<close>

lemma restore_Raise_graph:
  "restore_graph_on_error v body f = Raise e f' \<Longrightarrow> tasks f' = tasks f \<and> edges f' = edges f"
  by (auto simp: restore_graph_on_error_def split: outcome.splits)

lemma restore_reraises:
  "body f = Raise e f1 \<Longrightarrow>
     restore_graph_on_error v body f = Raise e (f1\<lparr>tasks := tasks f, edges := edges f\<rparr>)"
  by (simp add: restore_graph_on_error_def)

lemma add_edge_Raise_graph:
  assumes "add_edge f up down k v = Raise e f'"
  shows "tasks f' = tasks f \<and> edges f' = edges f"
proof (cases "is_parameter (resolve down)")
  case True
  with assms show ?thesis by (simp add: add_edge_def)
next
  case False
  show ?thesis
  proof (cases "check_duplicate_key f (resolve down) k")
    case (Inl e')
    with assms False show ?thesis by (simp add: add_edge_def check_def)
  next
    case (Inr u)
    with assms False
    have "restore_graph_on_error v (add_edge_body (resolve up) (resolve down) k) f = Raise e f'"
      by (simp add: add_edge_def check_def)
    then show ?thesis by (rule restore_Raise_graph)
  qed
qed

text \<open>
  C4. When \<^verbatim>\<open>add_edge\<close>, \<^verbatim>\<open>update\<close>, \<^verbatim>\<open>add_task_results\<close> or
  \<^verbatim>\<open>set_dependencies\<close> raises, the task set and the edge set of the flow are the ones
  it had before the call; this holds for either value of \<^verbatim>\<open>validate\<close>, and for the
  exception of the cycle check. The context manager raises the exception of its body again,
  unchanged.
\<close>

theorem failed_mutation_restores_graph:
  "(add_edge f up down k v = Raise e f' \<longrightarrow> tasks f' = tasks f \<and> edges f' = edges f) \<and>
   (update f other v = Raise e f' \<longrightarrow> tasks f' = tasks f \<and> edges f' = edges f) \<and>
   (add_task_results f results v = Raise e f' \<longrightarrow> tasks f' = tasks f \<and> edges f' = edges f) \<and>
   (set_dependencies as_task_result f x ups downs kws v = Raise e f' \<longrightarrow>
      tasks f' = tasks f \<and> edges f' = edges f) \<and>
   (body f = Raise e f1 \<longrightarrow>
      restore_graph_on_error v body f = Raise e (f1\<lparr>tasks := tasks f, edges := edges f\<rparr>))"
  unfolding update_def add_task_results_def set_dependencies_def
  by (intro conjI impI add_edge_Raise_graph restore_Raise_graph restore_reraises; assumption)

lemma chain_cycle:
  "add_edge chain_flow (OfTask task_c) (OfTask task_a) None True = Raise CyclicGraph chain_flow"
  by code_simp

theorem failed_mutation_restores_graph_witness:
  "add_edge chain_flow (OfTask task_c) (OfTask task_a) None True = Raise CyclicGraph chain_flow \<and>
   tasks chain_flow = [task_a, task_b, task_c] \<and>
   edges chain_flow = [mk_edge task_a task_b None, mk_edge task_b task_c None]"
  using failed_mutation_restores_graph
    [of chain_flow "OfTask task_c" "OfTask task_a" None True CyclicGraph chain_flow]
    chain_cycle
  by (simp add: chain_flow_def)

section \<open>Parameters have no upstream dependencies\<close>

lemma npd_add_task:
  "no_parameter_downstream f \<Longrightarrow> no_parameter_downstream (state_of (add_task f x))"
  by (auto simp: add_task_def no_parameter_downstream_def split: pyobj.splits)

lemma npd_then_do:
  "no_parameter_downstream (state_of r) \<Longrightarrow>
   (\<And>g. no_parameter_downstream g \<Longrightarrow> no_parameter_downstream (state_of (k g))) \<Longrightarrow>
   no_parameter_downstream (state_of (then_do r k))"
  by (cases r) auto

lemma npd_for_each:
  "(\<And>x g. no_parameter_downstream g \<Longrightarrow> no_parameter_downstream (state_of (body x g))) \<Longrightarrow>
   no_parameter_downstream f \<Longrightarrow>
   no_parameter_downstream (state_of (for_each xs body f))"
proof (induction xs arbitrary: f)
  case Nil
  then show ?case by simp
next
  case (Cons x xs)
  show ?case
    unfolding for_each.simps
    by (rule npd_then_do) (auto intro: Cons)
qed

lemma npd_check:
  "no_parameter_downstream f \<Longrightarrow> no_parameter_downstream (state_of (check f r))"
  by (cases r) (auto simp: check_def)

lemma npd_restore:
  assumes "no_parameter_downstream f" and "no_parameter_downstream (state_of (body f))"
  shows "no_parameter_downstream (state_of (restore_graph_on_error v body f))"
proof (cases "body f")
  case (Done f1)
  with assms show ?thesis
    by (cases "validate f1")
       (auto simp: restore_graph_on_error_def check_def no_parameter_downstream_def)
next
  case (Raise e f1)
  with assms show ?thesis
    by (auto simp: restore_graph_on_error_def no_parameter_downstream_def)
qed

lemma npd_add_edge_body:
  assumes "no_parameter_downstream f" and "\<not> is_parameter d"
  shows "no_parameter_downstream (state_of (add_edge_body u d k f))"
  unfolding add_edge_body_def
proof (intro npd_then_do)
  show "no_parameter_downstream
          (state_of (if u \<notin> set (tasks f) then add_task f (IsTask u) else Done f))"
    using assms(1) by (auto intro: npd_add_task)
next
  fix g assume "no_parameter_downstream g"
  then show "no_parameter_downstream
               (state_of (if d \<notin> set (tasks g) then add_task g (IsTask d) else Done g))"
    by (auto intro: npd_add_task)
next
  fix g ga :: flow
  assume g: "no_parameter_downstream ga"
  let ?f3 = "ga\<lparr>edges := set_add \<lparr>upstream_task = u, downstream_task = d, key = k\<rparr> (edges ga)\<rparr>"
  from g assms(2) have "no_parameter_downstream ?f3"
    by (auto simp: no_parameter_downstream_def set_add_def list_all_iff)
  then show "no_parameter_downstream
     (state_of (let f3 = ?f3 in
        if k \<noteq> None
        then check f3 (and_then (edges_to f3 d)
               (\<lambda>es. if bind_partial d (edge_keys es) then Inr () else Inl SignatureBind))
        else Done f3))"
    by (auto simp: Let_def intro: npd_check)
qed

lemma npd_add_edge:
  assumes "no_parameter_downstream f"
  shows "no_parameter_downstream (state_of (add_edge f up down k v))"
proof (cases "is_parameter (resolve down)")
  case True
  with assms show ?thesis by (simp add: add_edge_def)
next
  case False
  show ?thesis
    unfolding add_edge_def Let_def using False
    by (auto intro!: npd_then_do npd_check npd_restore npd_add_edge_body assms)
qed

lemma npd_update:
  assumes "no_parameter_downstream f"
  shows "no_parameter_downstream (state_of (update f other v))"
  unfolding update_def
  by (intro npd_restore npd_then_do npd_for_each assms)
     (auto intro: npd_add_task npd_add_edge)

lemma npd_add_task_results:
  assumes "no_parameter_downstream f"
  shows "no_parameter_downstream (state_of (add_task_results f results v))"
  unfolding add_task_results_def
  by (intro npd_restore npd_then_do npd_for_each assms)
     (auto intro: npd_add_task npd_update)

lemma npd_step:
  assumes "no_parameter_downstream g"
  shows "no_parameter_downstream
           (state_of (case as_task_result x of
                        Inl e \<Rightarrow> Raise e g
                      | Inr tr \<Rightarrow> then_do (add_task_results g [tr] True)
                                   (\<lambda>f. add_edge f (up tr) (down tr) k False)))"
  using assms
  by (cases "as_task_result x") (auto intro!: npd_then_do npd_add_task_results npd_add_edge)

lemma npd_set_dependencies:
  assumes "no_parameter_downstream f"
  shows "no_parameter_downstream
           (state_of (set_dependencies as_task_result f x ups downs kws v))"
  unfolding set_dependencies_def
proof (rule npd_restore [OF assms])
  show "no_parameter_downstream
     (state_of
       (case as_task_result x of Inl e \<Rightarrow> Raise e f
        | Inr result \<Rightarrow>
            let t = tr_task result
            in if var_positional t then Raise VarArgsUnsupported f
               else then_do (add_task_results f [result] True)
                     (\<lambda>f. then_do
                           (for_each ups
                             (\<lambda>x f. case as_task_result x of Inl e \<Rightarrow> Raise e f
                                    | Inr tr \<Rightarrow>
                                        then_do (add_task_results f [tr] True)
                                         (\<lambda>f. add_edge f (OfResult tr) (OfTask t) None False))
                             f)
                           (\<lambda>f. then_do
                                 (for_each downs
                                   (\<lambda>x f. case as_task_result x of Inl e \<Rightarrow> Raise e f
                                          | Inr tr \<Rightarrow>
                                              then_do (add_task_results f [tr] True)
                                               (\<lambda>f. add_edge f (OfTask t) (OfResult tr) None False))
                                   f)
                                 (for_each kws
                                   (\<lambda>(k, x) f.
                                       case as_task_result x of Inl e \<Rightarrow> Raise e f
                                       | Inr tr \<Rightarrow>
                                           then_do (add_task_results f [tr] True)
                                            (\<lambda>f. add_edge f (OfResult tr) (OfTask t) (Some k)
                                                  False)))))))"
  proof (cases "as_task_result x")
    case (Inl e)
    with assms show ?thesis by simp
  next
    case (Inr result)
    show ?thesis
      unfolding Inr sum.case Let_def
      by (auto intro!: npd_then_do npd_for_each npd_add_task_results npd_step assms
               simp: split_def)
  qed
qed

lemma npd_flow_init:
  "no_parameter_downstream (state_of (flow_init nm ver ts es))"
proof -
  have "no_parameter_downstream \<lparr>name = n, version = ver, tasks = [], edges = []\<rparr>" for n
    by (simp add: no_parameter_downstream_def)
  then show ?thesis
    unfolding flow_init_def
    by (intro npd_then_do npd_for_each npd_add_task npd_add_edge)
qed

lemma reachable_npd:
  "reachable as_task_result f \<Longrightarrow> no_parameter_downstream f"
proof (induction rule: reachable.induct)
  case (construction nm ver ts es f)
  with npd_flow_init [of nm ver ts es] show ?case by simp
qed (auto intro: npd_add_task npd_add_edge npd_update npd_add_task_results npd_set_dependencies)

text \<open>
  C7. In every reachable state of a flow no edge has a \<^verbatim>\<open>Parameter\<close> as its downstream
  task, and \<^verbatim>\<open>add_edge\<close> towards a \<^verbatim>\<open>Parameter\<close> (after unwrapping a
  \<^verbatim>\<open>TaskResult\<close>) raises its \<^verbatim>\<open>ValueError\<close> with the flow untouched.
\<close>

theorem parameter_never_downstream:
  "(reachable as_task_result f \<longrightarrow>
      (\<forall>e \<in> set (edges f). \<not> is_parameter (downstream_task e))) \<and>
   (is_parameter (resolve down) \<longrightarrow>
      add_edge g up down k v = Raise ParameterDownstream g)"
proof (intro conjI impI)
  assume "reachable as_task_result f"
  then have "no_parameter_downstream f"
    by (rule reachable_npd)
  then show "\<forall>e \<in> set (edges f). \<not> is_parameter (downstream_task e)"
    by (simp add: no_parameter_downstream_def list_all_iff)
next
  assume "is_parameter (resolve down)"
  then show "add_edge g up down k v = Raise ParameterDownstream g"
    by (simp add: add_edge_def)
qed

lemma pair_flow_built:
  "flow_init (Some ''etl'') (Some ''1'') [IsTask task_a] [mk_edge task_a task_b None]
   = Done pair_flow"
  by code_simp

lemma param_p_is_parameter: "is_parameter (resolve (OfTask param_p))"
  by (simp add: param_p_def)

theorem parameter_never_downstream_witness:
  "reachable (Inr :: task_result \<Rightarrow> error + task_result) pair_flow \<and>
   edges pair_flow = [mk_edge task_a task_b None] \<and>
   \<not> is_parameter (downstream_task (mk_edge task_a task_b None)) \<and>
   add_edge pair_flow (OfTask task_a) (OfTask param_p) (Some ''x'') True
     = Raise ParameterDownstream pair_flow"
proof -
  have r: "reachable (Inr :: task_result \<Rightarrow> error + task_result) pair_flow"
    using pair_flow_built by (rule reachable.construction)
  have e: "edges pair_flow = [mk_edge task_a task_b None]"
    by (simp add: pair_flow_def)
  from parameter_never_downstream
         [of "Inr :: task_result \<Rightarrow> error + task_result" pair_flow "OfTask param_p"
             pair_flow "OfTask task_a" "Some ''x''" True]
       r e param_p_is_parameter
  show ?thesis
    by simp
qed

section \<open>The flow identifier\<close>

lemma version_or_empty:
  "(if truthy v then the v else []) = (case v of None \<Rightarrow> [] | Some s \<Rightarrow> s)"
  by (cases v) auto


text \<open>
  C8. \<^verbatim>\<open>generate_flow_id\<close> returns the UUID string of the MD5 digest of
  \<^verbatim>\<open>"<name>:<version>"\<close>, with the empty string for a version that is \<^verbatim>\<open>None\<close>
  (a digest has 16 bytes); so two flows with the same name and version have the same
  identifier, whatever their tasks and edges.
\<close>

theorem flow_id_of_name_and_version:
  "((\<forall>b. length (md5 lib b) = 16) \<longrightarrow>
      generate_flow_id lib f =
        Inr (uuid_str (md5 lib (encode (name f @ '':'' @
               (case version f of None \<Rightarrow> [] | Some v \<Rightarrow> v)))))) \<and>
   (name f = name g \<and> version f = version g \<longrightarrow>
      generate_flow_id lib f = generate_flow_id lib g)"
proof (intro conjI impI)
  assume "\<forall>b. length (md5 lib b) = 16"
  then show "generate_flow_id lib f =
        Inr (uuid_str (md5 lib (encode (name f @ '':'' @
               (case version f of None \<Rightarrow> [] | Some v \<Rightarrow> v)))))"
    unfolding generate_flow_id_def version_or_empty
    by (simp add: get_hash_def uuid_of_bytes_def)
next
  assume "name f = name g \<and> version f = version g"
  then show "generate_flow_id lib f = generate_flow_id lib g"
    by (simp add: generate_flow_id_def)
qed

lemma toy_md5_length: "\<forall>b. length (md5 toy_lib b) = 16"
  by (auto simp: toy_lib_def)

theorem flow_id_of_name_and_version_witness:
  "generate_flow_id toy_lib empty_flow = Inr ''65746c3a-3100-0000-0000-000000000000'' \<and>
   generate_flow_id toy_lib (empty_flow\<lparr>tasks := [task_a]\<rparr>) = generate_flow_id toy_lib empty_flow"
proof -
  have "uuid_str (md5 toy_lib (encode (name empty_flow @ '':'' @
          (case version empty_flow of None \<Rightarrow> [] | Some v \<Rightarrow> v))))
        = ''65746c3a-3100-0000-0000-000000000000''"
    by code_simp
  moreover have "name (empty_flow\<lparr>tasks := [task_a]\<rparr>) = name empty_flow \<and>
                 version (empty_flow\<lparr>tasks := [task_a]\<rparr>) = version empty_flow"
    by simp
  ultimately show ?thesis
    using flow_id_of_name_and_version [of toy_lib empty_flow empty_flow]
      flow_id_of_name_and_version [of toy_lib "empty_flow\<lparr>tasks := [task_a]\<rparr>" empty_flow]
      toy_md5_length
    by simp
qed

section \<open>Task identifiers\<close>

lemma mixed_flow_built:
  "flow_init (Some ''etl'') (Some ''1'') [IsTask task_a, IsTask dup_1, IsTask dup_2]
     [mk_edge task_a dup_1 None, mk_edge task_a dup_1 (Some ''x'')] = Done mixed_flow"
  by code_simp

lemma mixed_sorted: "sorted_tasks mixed_flow None = Inr [task_a, dup_1, dup_2]"
  by code_simp

lemma mixed_edges_to_a: "edges_to mixed_flow task_a = Inr []"
  by code_simp

lemma mixed_edges_to_dup:
  "edges_to mixed_flow dup_1 = Inr [mk_edge task_a dup_1 None, mk_edge task_a dup_1 (Some ''x'')]"
  by code_simp

lemma distinct_tasks: "task_a \<noteq> dup_1" "task_a \<noteq> dup_2" "dup_1 \<noteq> dup_2"
  by (simp_all add: task_a_def dup_1_def dup_2_def mk_task_def)

lemma infos: "info dup_1 = ''T''" "info dup_2 = ''T''" "info task_a = ''A''"
  by (simp_all add: task_a_def dup_1_def dup_2_def mk_task_def)

lemma mixed_tasks: "tasks mixed_flow = [task_a, dup_1, dup_2]"
  by (simp add: mixed_flow_def)

text \<open>
  C1 at a failing input. The flow is built by the constructor and is acyclic, and two of its
  tasks have the same initial hash, so forward pass 1 rehashes \<open>dup_1\<close> with its incoming
  edges: \<^verbatim>\<open>sorted\<close> is given one pair with the key \<^verbatim>\<open>None\<close> and one with the key
  \<^verbatim>\<open>"x"\<close>, and \<^verbatim>\<open>generate_task_ids\<close> raises \<^verbatim>\<open>TypeError\<close> instead of returning
  identifiers. This holds for every hash function.
\<close>

theorem generate_task_ids_mixed_keys:
  "flow_init (Some ''etl'') (Some ''1'') [IsTask task_a, IsTask dup_1, IsTask dup_2]
     [mk_edge task_a dup_1 None, mk_edge task_a dup_1 (Some ''x'')] = Done mixed_flow \<and>
   sorted_tasks mixed_flow None = Inr [task_a, dup_1, dup_2] \<and>
   generate_task_ids lib mixed_flow = Some (Inl CompareTypeError)"
proof -
  let ?ha = "get_hash lib (ATask task_a)" and ?ht = "get_hash lib (ATask dup_1)"
  have ht2: "get_hash lib (ATask dup_2) = ?ht"
    by (simp add: get_hash_def infos)
  let ?hashes = "map_of (map (\<lambda>t. (t, get_hash lib (ATask t))) (tasks mixed_flow))"
  let ?counter = "count_list (map (\<lambda>t. get_hash lib (ATask t)) (remdups (tasks mixed_flow)))"
  have ct2: "2 \<le> ?counter ?ht"
    using distinct_tasks by (simp add: mixed_tasks ht2)
  then have ct: "?counter ?ht \<noteq> 1"
    by simp
  have step: "forward_pass_1 lib mixed_flow [dup_1, dup_2] (hs, c, fin) = Inl CompareTypeError"
    if "hs dup_1 = Some ?ht" "hs task_a = Some h" "c ?ht \<noteq> 1" for hs c fin h
    using that
    by (simp add: lookup_def mixed_edges_to_dup sorted_edge_hashes_def mk_edge_def py_sorted_def)
  have "forward_pass_1 lib mixed_flow [task_a, dup_1, dup_2] (?hashes, ?counter, [])
        = Inl CompareTypeError"
  proof (cases "?counter ?ha = 1")
    case True
    have "forward_pass_1 lib mixed_flow [task_a, dup_1, dup_2] (?hashes, ?counter, [])
          = forward_pass_1 lib mixed_flow [dup_1, dup_2] (?hashes, ?counter, dict_set task_a ?ha [])"
      using True by (simp add: lookup_def mixed_tasks)
    also have "\<dots> = Inl CompareTypeError"
      using ct distinct_tasks by (intro step) (simp_all add: mixed_tasks)
    finally show ?thesis .
  next
    case False
    let ?h' = "get_hash lib (APair ?ha [])"
    have "forward_pass_1 lib mixed_flow [task_a, dup_1, dup_2] (?hashes, ?counter, [])
          = forward_pass_1 lib mixed_flow [dup_1, dup_2]
              (?hashes(task_a \<mapsto> ?h'), ?counter(?h' := ?counter ?h' + 1), [])"
      using False
      by (simp add: lookup_def mixed_tasks mixed_edges_to_a sorted_edge_hashes_def py_sorted_def
            Let_def)
    also have "\<dots> = Inl CompareTypeError"
    proof (rule step)
      show "(?hashes(task_a \<mapsto> ?h')) dup_1 = Some ?ht"
        using distinct_tasks by (simp add: mixed_tasks)
      show "(?hashes(task_a \<mapsto> ?h')) task_a = Some ?h'"
        by simp
      show "(?counter(?h' := ?counter ?h' + 1)) ?ht \<noteq> 1"
        using ct2 by auto
    qed
    finally show ?thesis .
  qed
  then show ?thesis
    by (simp add: generate_task_ids_def mixed_sorted mixed_flow_built Let_def)
qed

section \<open>Every reachable flow is well-formed\<close>

lemma wf_rollback:
  "well_formed f \<Longrightarrow> well_formed (g\<lparr>tasks := tasks f, edges := edges f\<rparr>)"
  by (simp add: well_formed_def)

lemma wf_add_task: "well_formed f \<Longrightarrow> well_formed (state_of (add_task f x))"
  by (auto simp: add_task_def well_formed_def set_add_def list_all_iff split: pyobj.splits)

lemma add_task_Done:
  "add_task f (IsTask t) = Done f' \<Longrightarrow> f' = f\<lparr>tasks := set_add t (tasks f)\<rparr>"
  by (auto simp: add_task_def split: if_splits)

lemma add_task_Raise: "add_task f x = Raise e f' \<Longrightarrow> f' = f"
  by (auto simp: add_task_def split: if_splits pyobj.splits)

lemma wf_then_do:
  "well_formed (state_of r) \<Longrightarrow>
   (\<And>g. well_formed g \<Longrightarrow> well_formed (state_of (k g))) \<Longrightarrow>
   well_formed (state_of (then_do r k))"
  by (cases r) auto

lemma wf_for_each:
  "(\<And>x g. well_formed g \<Longrightarrow> well_formed (state_of (body x g))) \<Longrightarrow>
   well_formed f \<Longrightarrow> well_formed (state_of (for_each xs body f))"
proof (induction xs arbitrary: f)
  case Nil
  then show ?case by simp
next
  case (Cons x xs)
  show ?case
    unfolding for_each.simps
    by (rule wf_then_do) (auto intro: Cons)
qed

lemma wf_check: "well_formed f \<Longrightarrow> well_formed (state_of (check f r))"
  by (cases r) (auto simp: check_def)

lemma wf_restore:
  assumes "well_formed f" and "well_formed (state_of (body f))"
  shows "well_formed (state_of (restore_graph_on_error v body f))"
proof (cases "body f")
  case (Done f1)
  with assms show ?thesis
    by (cases "validate f1") (auto simp: restore_graph_on_error_def check_def intro: wf_rollback)
next
  case (Raise e f1)
  with assms show ?thesis
    by (auto simp: restore_graph_on_error_def intro: wf_rollback)
qed

lemma wf_add_edge_body:
  assumes "well_formed f"
  shows "well_formed (state_of (add_edge_body u d k f))"
proof -
  let ?r1 = "if u \<notin> set (tasks f) then add_task f (IsTask u) else Done f"
  show ?thesis
  proof (cases ?r1)
    case (Raise e f1)
    then have "f1 = f"
      by (auto dest: add_task_Raise split: if_splits)
    with Raise assms show ?thesis
      by (simp add: add_edge_body_def)
  next
    case r1: (Done f1)
    then have f1: "well_formed f1" "u \<in> set (tasks f1)"
      using assms wf_add_task [OF assms, of "IsTask u"]
      by (auto dest!: add_task_Done simp: set_add_def split: if_splits)
    let ?r2 = "if d \<notin> set (tasks f1) then add_task f1 (IsTask d) else Done f1"
    show ?thesis
    proof (cases ?r2)
      case (Raise e f2)
      then have "f2 = f1"
        by (auto dest: add_task_Raise split: if_splits)
      with Raise r1 f1 show ?thesis
        by (simp add: add_edge_body_def)
    next
      case r2: (Done f2)
      then have f2: "well_formed f2" "u \<in> set (tasks f2)" "d \<in> set (tasks f2)"
        using f1 wf_add_task [OF f1(1), of "IsTask d"]
        by (auto dest!: add_task_Done simp: set_add_def split: if_splits)
      let ?f3 = "f2\<lparr>edges := set_add \<lparr>upstream_task = u, downstream_task = d, key = k\<rparr> (edges f2)\<rparr>"
      from f2 have "well_formed ?f3"
        by (auto simp: well_formed_def set_add_def list_all_iff)
      then have "well_formed (state_of (if k \<noteq> None
                  then check ?f3 (and_then (edges_to ?f3 d)
                         (\<lambda>es. if bind_partial d (edge_keys es) then Inr () else Inl SignatureBind))
                  else Done ?f3))"
        by (auto intro: wf_check)
      with r1 r2 show ?thesis
        by (simp add: add_edge_body_def Let_def)
    qed
  qed
qed

lemma wf_add_edge:
  assumes "well_formed f"
  shows "well_formed (state_of (add_edge f up down k v))"
  unfolding add_edge_def Let_def
  by (auto intro!: wf_then_do wf_check wf_restore wf_add_edge_body assms)

lemma wf_update:
  assumes "well_formed f"
  shows "well_formed (state_of (update f other v))"
  unfolding update_def
  by (intro wf_restore wf_then_do wf_for_each assms)
     (auto intro: wf_add_task wf_add_edge)

lemma wf_add_task_results:
  assumes "well_formed f"
  shows "well_formed (state_of (add_task_results f results v))"
  unfolding add_task_results_def
  by (intro wf_restore wf_then_do wf_for_each assms)
     (auto intro: wf_add_task wf_update)

lemma wf_step:
  assumes "well_formed g"
  shows "well_formed
           (state_of (case as_task_result x of
                        Inl e \<Rightarrow> Raise e g
                      | Inr tr \<Rightarrow> then_do (add_task_results g [tr] True)
                                   (\<lambda>f. add_edge f (up tr) (down tr) k False)))"
  using assms
  by (cases "as_task_result x") (auto intro!: wf_then_do wf_add_task_results wf_add_edge)

lemma wf_set_dependencies:
  assumes "well_formed f"
  shows "well_formed (state_of (set_dependencies as_task_result f x ups downs kws v))"
  unfolding set_dependencies_def
proof (rule wf_restore [OF assms], cases "as_task_result x")
  case (Inl e)
  with assms show "well_formed (state_of
       (case as_task_result x of Inl e \<Rightarrow> Raise e f
        | Inr result \<Rightarrow>
            let t = tr_task result
            in if var_positional t then Raise VarArgsUnsupported f
               else then_do (add_task_results f [result] True)
                     (\<lambda>f. then_do
                           (for_each ups
                             (\<lambda>x f. case as_task_result x of Inl e \<Rightarrow> Raise e f
                                    | Inr tr \<Rightarrow>
                                        then_do (add_task_results f [tr] True)
                                         (\<lambda>f. add_edge f (OfResult tr) (OfTask t) None False))
                             f)
                           (\<lambda>f. then_do
                                 (for_each downs
                                   (\<lambda>x f. case as_task_result x of Inl e \<Rightarrow> Raise e f
                                          | Inr tr \<Rightarrow>
                                              then_do (add_task_results f [tr] True)
                                               (\<lambda>f. add_edge f (OfTask t) (OfResult tr) None False))
                                   f)
                                 (for_each kws
                                   (\<lambda>(k, x) f.
                                       case as_task_result x of Inl e \<Rightarrow> Raise e f
                                       | Inr tr \<Rightarrow>
                                           then_do (add_task_results f [tr] True)
                                            (\<lambda>f. add_edge f (OfResult tr) (OfTask t) (Some k)
                                                  False)))))))"
    by simp
next
  case (Inr result)
  show "well_formed (state_of
       (case as_task_result x of Inl e \<Rightarrow> Raise e f
        | Inr result \<Rightarrow>
            let t = tr_task result
            in if var_positional t then Raise VarArgsUnsupported f
               else then_do (add_task_results f [result] True)
                     (\<lambda>f. then_do
                           (for_each ups
                             (\<lambda>x f. case as_task_result x of Inl e \<Rightarrow> Raise e f
                                    | Inr tr \<Rightarrow>
                                        then_do (add_task_results f [tr] True)
                                         (\<lambda>f. add_edge f (OfResult tr) (OfTask t) None False))
                             f)
                           (\<lambda>f. then_do
                                 (for_each downs
                                   (\<lambda>x f. case as_task_result x of Inl e \<Rightarrow> Raise e f
                                          | Inr tr \<Rightarrow>
                                              then_do (add_task_results f [tr] True)
                                               (\<lambda>f. add_edge f (OfTask t) (OfResult tr) None False))
                                   f)
                                 (for_each kws
                                   (\<lambda>(k, x) f.
                                       case as_task_result x of Inl e \<Rightarrow> Raise e f
                                       | Inr tr \<Rightarrow>
                                           then_do (add_task_results f [tr] True)
                                            (\<lambda>f. add_edge f (OfResult tr) (OfTask t) (Some k)
                                                  False)))))))"
    unfolding Inr sum.case Let_def
    by (auto intro!: wf_then_do wf_for_each wf_add_task_results wf_step assms simp: split_def)
qed

lemma wf_flow_init: "well_formed (state_of (flow_init nm ver ts es))"
proof -
  have "well_formed \<lparr>name = n, version = ver, tasks = [], edges = []\<rparr>" for n
    by (simp add: well_formed_def)
  then show ?thesis
    unfolding flow_init_def
    by (intro wf_then_do wf_for_each wf_add_task wf_add_edge)
qed

lemma reachable_well_formed:
  "reachable as_task_result f \<Longrightarrow> well_formed f"
proof (induction rule: reachable.induct)
  case (construction nm ver ts es f)
  with wf_flow_init [of nm ver ts es] show ?case by simp
qed (auto intro: wf_add_task wf_add_edge wf_update wf_add_task_results wf_set_dependencies)

section \<open>Correctness of the sort\<close>

lemma ordered_snoc:
  "ordered R (xs @ [t]) = (ordered R xs \<and> (\<forall>u. (u, t) \<in> R \<longrightarrow> u \<in> set xs))"
  by (auto simp: ordered_def nth_append less_Suc_eq all_conj_distrib)

lemma upstream_tasks_Inr:
  assumes "upstream_tasks f t = Inr ups"
  shows "set ups = {upstream_task e | e. e \<in> set (edges f) \<and> downstream_task e = t}"
proof -
  from assms obtain es where es: "edges_to f t = Inr es" and u: "ups = remdups (map upstream_task es)"
    by (cases "edges_to f t") (auto simp: upstream_tasks_def)
  from edges_to_Inr [OF es] u show ?thesis
    by auto
qed

lemma upstream_tasks_total:
  assumes "\<forall>e \<in> set (edges f). downstream_task e \<in> set (tasks f)" and "t \<in> set (tasks f)"
  shows "\<exists>ups. upstream_tasks f t = Inr ups"
  using edges_to_member [OF assms] by (auto simp: upstream_tasks_def)

lemma scan_pass_inv:
  assumes down: "\<forall>e \<in> set (edges f). downstream_task e \<in> set (tasks f)"
    and W: "W \<subseteq> set (tasks f)"
  shows "sort_inv W (edge_rel f W) remaining emitted \<Longrightarrow> set snapshot \<subseteq> set remaining \<Longrightarrow>
     distinct snapshot \<Longrightarrow>
     \<exists>remaining' emitted' cyclic'.
       scan_pass f snapshot (remaining, emitted, cyclic) = Inr (remaining', emitted', cyclic') \<and>
       sort_inv W (edge_rel f W) remaining' emitted'"
proof (induction snapshot arbitrary: remaining emitted cyclic)
  case Nil
  then show ?case by simp
next
  case (Cons t snapshot)
  from Cons.prems have t: "t \<in> set remaining" and sub: "set snapshot \<subseteq> set remaining"
    and tn: "t \<notin> set snapshot" and ds: "distinct snapshot"
    by auto
  from Cons.prems(1) t W have "t \<in> set (tasks f)"
    by (auto simp: sort_inv_def)
  from upstream_tasks_total [OF down this] obtain ups where ups: "upstream_tasks f t = Inr ups"
    by auto
  note pre = upstream_tasks_Inr [OF ups]
  show ?case
  proof (cases "list_ex (\<lambda>u. u \<in> set remaining) ups")
    case True
    from Cons.IH [OF Cons.prems(1) sub ds, of cyclic] True ups show ?thesis
      by simp
  next
    case False
    have inv': "sort_inv W (edge_rel f W) (remove1 t remaining) (emitted @ [t])"
    proof -
      from Cons.prems(1) have d: "distinct remaining" "distinct emitted"
        and dj: "set remaining \<inter> set emitted = {}" and un: "set remaining \<union> set emitted = W"
        and ord: "ordered (edge_rel f W) emitted"
        by (auto simp: sort_inv_def)
      have "\<forall>u. (u, t) \<in> edge_rel f W \<longrightarrow> u \<in> set emitted"
      proof (intro allI impI)
        fix u assume "(u, t) \<in> edge_rel f W"
        then have "u \<in> set ups" and "u \<in> W"
          by (auto simp: edge_rel_def pre)
        with False un show "u \<in> set emitted"
          by (auto simp: list_ex_iff)
      qed
      with ord have "ordered (edge_rel f W) (emitted @ [t])"
        by (simp add: ordered_snoc)
      with d dj un t show ?thesis
        by (auto simp: sort_inv_def)
    qed
    from sub tn have sub': "set snapshot \<subseteq> set (remove1 t remaining)"
      using Cons.prems(1) by (auto simp: sort_inv_def)
    from Cons.IH [OF inv' sub' ds, of False] False ups t show ?thesis
      by simp
  qed
qed

lemma scan_pass_blocked:
  "scan_pass f snapshot (remaining, emitted, cyclic) = Inr (remaining', emitted', True) \<Longrightarrow>
     remaining' = remaining \<and>
     (\<forall>t \<in> set snapshot. \<exists>e \<in> set (edges f). downstream_task e = t \<and> upstream_task e \<in> set remaining)"
proof (induction snapshot arbitrary: remaining emitted cyclic)
  case Nil
  then show ?case by simp
next
  case (Cons t snapshot)
  from Cons.prems obtain ups where ups: "upstream_tasks f t = Inr ups"
    by (cases "upstream_tasks f t") auto
  note pre = upstream_tasks_Inr [OF ups]
  show ?case
  proof (cases "list_ex (\<lambda>u. u \<in> set remaining) ups")
    case True
    with Cons.prems ups
    have "scan_pass f snapshot (remaining, emitted, cyclic) = Inr (remaining', emitted', True)"
      by simp
    from Cons.IH [OF this] True pre show ?thesis
      by (auto simp: list_ex_iff)
  next
    case False
    with Cons.prems ups
    have "scan_pass f snapshot (remove1 t remaining, emitted @ [t], False)
          = Inr (remaining', emitted', True)"
      by (auto split: if_splits)
    moreover have "\<And>r e c r' e'. scan_pass f snapshot (r, e, False) \<noteq> Inr (r', e', True)"
    proof -
      fix r e c r' e'
      show "scan_pass f snapshot (r, e, False) \<noteq> Inr (r', e', True)"
      proof (induction snapshot arbitrary: r e)
        case Nil
        then show ?case by simp
      next
        case (Cons a snapshot)
        then show ?case
          by (cases "upstream_tasks f a") (auto split: if_splits)
      qed
    qed
    ultimately show ?thesis by blast
  qed
qed

lemma cycle_from_blocked:
  assumes "finite A" and "A \<noteq> {}" and "\<forall>t \<in> A. \<exists>u \<in> A. (u, t) \<in> R"
  shows "\<not> acyclic R"
proof
  assume "acyclic R"
  then have "acyclic (R \<inter> A \<times> A)"
    by (rule acyclic_subset) auto
  moreover from assms(1) have "finite (R \<inter> A \<times> A)"
    by auto
  ultimately have "wf (R \<inter> A \<times> A)"
    by (simp add: finite_acyclic_wf)
  moreover from assms(2) obtain x where "x \<in> A"
    by auto
  ultimately obtain z where z: "z \<in> A" and m: "\<And>y. (y, z) \<in> R \<inter> A \<times> A \<Longrightarrow> y \<notin> A"
    by (rule wfE_min) blast
  from assms(3) z obtain u where "u \<in> A" "(u, z) \<in> R"
    by auto
  with z m [of u] show False
    by auto
qed

lemma ordered_acyclic:
  assumes "ordered R xs" and "distinct xs" and "R \<subseteq> set xs \<times> set xs"
  shows "acyclic R"
proof -
  define idx where "idx x = (THE i. i < length xs \<and> xs ! i = x)" for x
  have idx: "idx (xs ! i) = i" if "i < length xs" for i
    unfolding idx_def using that assms(2)
    by (intro the_equality) (auto simp: nth_eq_iff_index_eq)
  have "R \<subseteq> inv_image less_than idx"
  proof
    fix p assume p: "p \<in> R"
    obtain u v where uv: "p = (u, v)" by (cases p)
    with p assms(3) have "v \<in> set xs" by auto
    then obtain j where j: "j < length xs" "xs ! j = v"
      by (auto simp: in_set_conv_nth)
    with assms(1) p uv have "u \<in> set (take j xs)"
      by (auto simp: ordered_def)
    then obtain i where i: "i < j" "xs ! i = u"
      using j(1) by (auto simp: in_set_conv_nth)
    with j idx [of i] idx [of j] have "idx u < idx v"
      by auto
    with uv show "p \<in> inv_image less_than idx"
      by simp
  qed
  moreover have "wf (inv_image less_than idx)"
    by simp
  ultimately have "wf R"
    by (rule wf_subset [rotated])
  then show ?thesis
    by (rule wf_acyclic)
qed

lemma sort_remaining_result:
  "\<forall>e \<in> set (edges f). downstream_task e \<in> set (tasks f) \<Longrightarrow> W \<subseteq> set (tasks f) \<Longrightarrow>
     sort_inv W (edge_rel f W) remaining emitted \<Longrightarrow>
     (\<exists>ts. sort_remaining f remaining emitted = Inr ts \<and> sort_inv W (edge_rel f W) [] ts) \<or>
     (sort_remaining f remaining emitted = Inl CyclicGraph \<and> \<not> acyclic (edge_rel f W))"
proof (induction f remaining emitted rule: sort_remaining.induct)
  case (1 f remaining emitted)
  note unfold = sort_remaining.simps [of f remaining emitted]
  show ?case
  proof (cases "remaining = []")
    case True
    with "1.prems"(3) show ?thesis
      by (auto simp: sort_remaining.simps [of f "[]"])
  next
    case False
    from "1.prems"(3) have "distinct remaining"
      by (simp add: sort_inv_def)
    with scan_pass_inv [OF "1.prems"(1,2,3), of remaining True]
    obtain remaining' emitted' cyclic'
      where sp: "scan_pass f remaining (remaining, emitted, True) = Inr (remaining', emitted', cyclic')"
        and inv': "sort_inv W (edge_rel f W) remaining' emitted'"
      by auto
    show ?thesis
    proof (cases cyclic')
      case True
      from sp True scan_pass_blocked [of f remaining remaining emitted True remaining' emitted']
      have blocked: "\<forall>t \<in> set remaining. \<exists>e \<in> set (edges f).
                       downstream_task e = t \<and> upstream_task e \<in> set remaining"
        by simp
      from "1.prems"(3) have "set remaining \<subseteq> W"
        by (auto simp: sort_inv_def)
      with blocked have "\<forall>t \<in> set remaining. \<exists>u \<in> set remaining. (u, t) \<in> edge_rel f W"
        by (fastforce simp: edge_rel_def)
      with False have "\<not> acyclic (edge_rel f W)"
        by (intro cycle_from_blocked [of "set remaining"]) auto
      with sp True False show ?thesis
        by (simp add: unfold)
    next
      case nc: False
      from sp nc False have "sort_remaining f remaining emitted = sort_remaining f remaining' emitted'"
        by (simp add: unfold)
      with "1.IH" [OF False sp refl refl nc "1.prems"(1,2) inv'] show ?thesis
        by simp
    qed
  qed
qed

lemma distinct_set_add: "distinct xs \<Longrightarrow> distinct (set_add x xs)"
  by (simp add: set_add_def)

lemma distinct_fold_set_add: "distinct xs \<Longrightarrow> distinct (fold set_add ys xs)"
  by (induction ys arbitrary: xs) (auto intro: distinct_set_add)

lemma visit_new_distinct:
  "visit_new f new (ts, seen) = Inr (ts', seen') \<Longrightarrow> distinct ts \<Longrightarrow> distinct ts'"
proof (induction new arbitrary: ts seen)
  case Nil
  then show ?case by simp
next
  case (Cons t new)
  from Cons.prems(1) obtain ds
    where "visit_new f new (fold set_add ds ts, set_add t seen) = Inr (ts', seen')"
    by (cases "downstream_tasks f t") auto
  from Cons.IH [OF this distinct_fold_set_add [OF Cons.prems(2)]] show ?case .
qed

lemma close_downstream_result:
  "close_downstream f ts seen = Inr ws \<Longrightarrow> distinct ts \<Longrightarrow> set seen \<subseteq> set (tasks f) \<Longrightarrow>
     distinct ws \<and> set ws \<subseteq> set (tasks f)"
proof (induction f ts seen rule: close_downstream.induct)
  case (1 f ts seen)
  note unfold = close_downstream.simps [of f ts seen]
  let ?new = "filter (\<lambda>t. t \<notin> set seen) ts"
  show ?case
  proof (cases "?new = []")
    case True
    with "1.prems"(1) have "ws = ts"
      by (simp add: unfold)
    moreover from True have "set ts \<subseteq> set seen"
      by (auto simp: filter_empty_conv)
    ultimately show ?thesis
      using "1.prems"(2,3) by auto
  next
    case False
    with "1.prems"(1) obtain ts' seen' where v: "visit_new f ?new (ts, seen) = Inr (ts', seen')"
      and c: "close_downstream f ts' seen' = Inr ws"
      by (cases "visit_new f ?new (ts, seen)") (auto simp: unfold Let_def)
    from visit_new_seen [OF v] "1.prems"(3) have "set seen' \<subseteq> set (tasks f)"
      by auto
    with "1.IH" [OF refl False v refl c visit_new_distinct [OF v "1.prems"(2)]]
    show ?thesis
      by simp
  qed
qed

lemma working_tasks_result:
  assumes "working_tasks f roots = Inr ws" and "distinct (tasks f)"
  shows "distinct ws \<and> set ws \<subseteq> set (tasks f)"
proof (cases "\<exists>r rs. roots = Some (r # rs)")
  case True
  then obtain r rs where "roots = Some (r # rs)"
    by auto
  with assms(1) have "close_downstream f (remdups (r # rs)) [] = Inr ws"
    by (simp add: working_tasks_def)
  from close_downstream_result [OF this] show ?thesis
    by simp
next
  case False
  with assms(1) have "ws = tasks f"
    by (auto simp: working_tasks_def split: option.splits list.splits)
  with assms(2) show ?thesis
    by simp
qed

lemma sort_working_tasks:
  assumes wf: "well_formed f" and ws: "working_tasks f roots = Inr ws"
  shows "(\<exists>ts. sorted_tasks f roots = Inr ts \<and> distinct ts \<and> set ts = set ws \<and>
               ordered (edge_rel f (set ws)) ts \<and> acyclic (edge_rel f (set ws))) \<or>
         (sorted_tasks f roots = Inl CyclicGraph \<and> \<not> acyclic (edge_rel f (set ws)))"
proof -
  from wf have down: "\<forall>e \<in> set (edges f). downstream_task e \<in> set (tasks f)"
    and d: "distinct (tasks f)"
    by (auto simp: well_formed_def list_all_iff)
  from working_tasks_result [OF ws d] have dw: "distinct ws" and sub: "set ws \<subseteq> set (tasks f)"
    by auto
  from dw have "sort_inv (set ws) (edge_rel f (set ws)) ws []"
    by (simp add: sort_inv_def ordered_def)
  from sort_remaining_result [OF down sub this]
  show ?thesis
  proof
    assume "\<exists>ts. sort_remaining f ws [] = Inr ts \<and> sort_inv (set ws) (edge_rel f (set ws)) [] ts"
    then obtain ts where ts: "sort_remaining f ws [] = Inr ts"
      and inv: "sort_inv (set ws) (edge_rel f (set ws)) [] ts"
      by auto
    from inv have p: "distinct ts" "set ts = set ws" "ordered (edge_rel f (set ws)) ts"
      by (auto simp: sort_inv_def)
    have "edge_rel f (set ws) \<subseteq> set ts \<times> set ts"
      using p(2) by (auto simp: edge_rel_def)
    from ordered_acyclic [OF p(3) p(1) this] ts ws p show ?thesis
      by (simp add: sorted_tasks_def)
  next
    assume "sort_remaining f ws [] = Inl CyclicGraph \<and> \<not> acyclic (edge_rel f (set ws))"
    with ws show ?thesis
      by (simp add: sorted_tasks_def)
  qed
qed

lemma has_cycle_acyclic: "has_cycle f W = (\<not> acyclic (edge_rel f W))"
  by (simp add: has_cycle_def acyclic_def)

text \<open>
  C3. On a flow that is reachable (or just well-formed), \<^verbatim>\<open>sorted_tasks\<close> raises the
  cycle error exactly when the edges between the tasks under consideration close a cycle;
  without a cycle it returns all of these tasks, each once. \<^verbatim>\<open>validate\<close> is the same
  check on the whole task set.
\<close>

theorem cycle_detection:
  assumes "reachable as_task_result f \<or> well_formed f"
    and "working_tasks f roots = Inr ws"
  shows "(sorted_tasks f roots = Inl CyclicGraph) = has_cycle f (set ws) \<and>
         (\<not> has_cycle f (set ws) \<longrightarrow>
            (\<exists>ts. sorted_tasks f roots = Inr ts \<and> distinct ts \<and> set ts = set ws)) \<and>
         (roots = None \<longrightarrow>
            ws = tasks f \<and> (validate f = Inl CyclicGraph) = has_cycle f (set (tasks f)))"
proof -
  from assms(1) have wf: "well_formed f"
    by (auto dest: reachable_well_formed)
  from sort_working_tasks [OF wf assms(2)]
  have a: "(sorted_tasks f roots = Inl CyclicGraph) = has_cycle f (set ws)"
    and b: "\<not> has_cycle f (set ws) \<longrightarrow>
            (\<exists>ts. sorted_tasks f roots = Inr ts \<and> distinct ts \<and> set ts = set ws)"
    by (auto simp: has_cycle_acyclic)
  have "ws = tasks f \<and> (validate f = Inl CyclicGraph) = has_cycle f (set (tasks f))"
    if "roots = None"
  proof -
    from that assms(2) have w: "ws = tasks f"
      by (simp add: working_tasks_def)
    have "(validate f = Inl CyclicGraph) = (sorted_tasks f None = Inl CyclicGraph)"
      by (cases "sorted_tasks f None") (simp_all add: validate_def)
    with a w that show ?thesis
      by simp
  qed
  with a b show ?thesis
    by blast
qed

lemma loop_well_formed: "well_formed loop_flow"
  by code_simp

lemma loop_sorted: "sorted_tasks loop_flow None = Inl CyclicGraph"
  by code_simp

theorem cycle_detection_witness:
  "well_formed loop_flow \<and> working_tasks loop_flow None = Inr (tasks loop_flow) \<and>
   sorted_tasks loop_flow None = Inl CyclicGraph \<and>
   validate loop_flow = Inl CyclicGraph \<and> has_cycle loop_flow (set (tasks loop_flow))"
  using cycle_detection [of Inr loop_flow None "tasks loop_flow"]
    loop_well_formed loop_sorted
  by (simp add: working_tasks_def)

text \<open>
  C2. When \<^verbatim>\<open>sorted_tasks()\<close> returns on a reachable (or just well-formed) flow, the
  tuple holds every task once, and for every edge the upstream task stands strictly before
  the downstream task.
\<close>

theorem sorted_tasks_topological:
  assumes "reachable as_task_result f \<or> well_formed f"
    and "sorted_tasks f None = Inr ts"
    and "e \<in> set (edges f)"
  shows "distinct ts \<and> set ts = set (tasks f) \<and>
         (\<exists>i j. i < j \<and> j < length ts \<and> ts ! i = upstream_task e \<and> ts ! j = downstream_task e)"
proof -
  from assms(1) have wf: "well_formed f"
    by (auto dest: reachable_well_formed)
  have ws: "working_tasks f None = Inr (tasks f)"
    by (simp add: working_tasks_def)
  from sort_working_tasks [OF wf ws] assms(2)
  have p: "distinct ts" "set ts = set (tasks f)" "ordered (edge_rel f (set (tasks f))) ts"
    by auto
  from wf assms(3) have ends: "upstream_task e \<in> set (tasks f)" "downstream_task e \<in> set (tasks f)"
    by (auto simp: well_formed_def list_all_iff)
  with assms(3) have r: "(upstream_task e, downstream_task e) \<in> edge_rel f (set (tasks f))"
    by (auto simp: edge_rel_def)
  from ends(2) p(2) have "downstream_task e \<in> set ts"
    by simp
  then obtain j where j: "j < length ts" "ts ! j = downstream_task e"
    by (auto simp: in_set_conv_nth)
  with p(3) r have "upstream_task e \<in> set (take j ts)"
    by (auto simp: ordered_def)
  then obtain i where "i < j" "ts ! i = upstream_task e"
    using j(1) by (auto simp: in_set_conv_nth)
  with j p show ?thesis
    by blast
qed

lemma etl_well_formed: "well_formed etl_flow"
  by code_simp

lemma etl_sorted: "sorted_tasks etl_flow None = Inr [task_extract, task_transform, task_load]"
  by code_simp

lemma etl_edge: "mk_edge task_extract task_transform (Some ''data'') \<in> set (edges etl_flow)"
  by (simp add: etl_flow_def)

theorem sorted_tasks_topological_witness:
  "well_formed etl_flow \<and>
   sorted_tasks etl_flow None = Inr [task_extract, task_transform, task_load] \<and>
   mk_edge task_extract task_transform (Some ''data'') \<in> set (edges etl_flow) \<and>
   (\<exists>i j. i < j \<and> j < length [task_extract, task_transform, task_load] \<and>
          [task_extract, task_transform, task_load] ! i = task_extract \<and>
          [task_extract, task_transform, task_load] ! j = task_transform)"
  using sorted_tasks_topological [of Inr etl_flow "[task_extract, task_transform, task_load]"
          "mk_edge task_extract task_transform (Some ''data'')"]
    etl_well_formed etl_sorted etl_edge
  by (simp add: mk_edge_def)

end
